theory Spec2Isabelle
  imports Complex_Main
begin

section \<open>Values, errors and numpy indexing\<close>

text \<open>
  The composer \<open>OptFunctionList\<close> of \<open>iwopy/core/function_list.py\<close> does no arithmetic on
  the float values it routes: it only fills buffers with \<open>numpy.nan\<close> and copies what the
  sub-functions return. A float is therefore either the sentinel or a number.
\<close>

datatype float64 = NaN | Num real

text \<open>
  The exceptions the modelled code can raise: the two \<open>ValueError\<close>s of \<open>append\<close> with
  their message, the \<open>ValueError\<close> of \<open>list.index\<close> on a missing element
  (\<open>NotInList\<close>), an index out of range, the \<open>TypeError\<close> of \<open>list(slice)\<close>, and
  numpy's \<open>ValueError\<close> "could not broadcast input array" (\<open>BroadcastError\<close>).
\<close>

datatype py_error = ValueError string | NotInList | IndexError | TypeError | BroadcastError

definition ebind :: "'e + 'a \<Rightarrow> ('a \<Rightarrow> 'e + 'b) \<Rightarrow> 'e + 'b" where
  "ebind m k = (case m of Inl e \<Rightarrow> Inl e | Inr x \<Rightarrow> k x)"

text \<open>A list comprehension whose element expression may raise.\<close>

fun map_err :: "('a \<Rightarrow> 'e + 'b) \<Rightarrow> 'a list \<Rightarrow> 'e + 'b list" where
  "map_err g [] = Inr []"
| "map_err g (x # xs) = ebind (g x) (\<lambda>y. ebind (map_err g xs) (\<lambda>ys. Inr (y # ys)))"

text \<open>\<open>xs[i]\<close> on a Python list, for an index that is never negative.\<close>

definition list_get :: "'a list \<Rightarrow> nat \<Rightarrow> py_error + 'a" where
  "list_get xs i = (if i < length xs then Inr (xs ! i) else Inl IndexError)"

text \<open>\<open>xs.index(v)\<close>: the first position of \<open>v\<close>, or \<open>ValueError\<close>.\<close>

fun list_index :: "'a list \<Rightarrow> 'a \<Rightarrow> py_error + nat" where
  "list_index [] v = Inl NotInList"
| "list_index (x # xs) v =
     (if x = v then Inr 0 else ebind (list_index xs v) (\<lambda>i. Inr (Suc i)))"

text \<open>
  \<open>list(dict.fromkeys(xs))\<close>: keys are inserted in order, and a key already present keeps
  its place.
\<close>

definition dict_fromkeys :: "'a list \<Rightarrow> 'a list" where
  "dict_fromkeys xs = fold (\<lambda>k d. if k \<in> set d then d else d @ [k]) xs []"

text \<open>
  What \<open>getv\<close> returns: the slice object \<open>np.s_[a:b]\<close>, or a Python list of positions
  (the empty list when the sub-function has no variable of the namespace).
\<close>

datatype index_map = Slice nat nat | Positions "nat list"

text \<open>\<open>a[i0:i1]\<close> for a one-dimensional numpy array and \<open>0 \<le> i0\<close>: clipped to the array.\<close>

definition np_slice :: "'a list \<Rightarrow> nat \<Rightarrow> nat \<Rightarrow> 'a list" where
  "np_slice a i0 i1 = take (i1 - i0) (drop i0 a)"

text \<open>
  \<open>a[m]\<close> for a one-dimensional numpy array \<open>a\<close>: a slice is clipped to the array, a list
  of positions is read element by element and raises \<open>IndexError\<close> on a position out of
  range.
\<close>

fun take_index :: "'a list \<Rightarrow> index_map \<Rightarrow> py_error + 'a list" where
  "take_index a (Slice i0 i1) = Inr (np_slice a i0 i1)"
| "take_index a (Positions l) =
     (if \<forall>i \<in> set l. i < length a then Inr (map (\<lambda>i. a ! i) l) else Inl IndexError)"

text \<open>\<open>list(m)\<close>: a slice object is not iterable.\<close>

fun list_of_index :: "index_map \<Rightarrow> py_error + nat list" where
  "list_of_index (Slice i0 i1) = Inl TypeError"
| "list_of_index (Positions l) = Inr l"

text \<open>
  \<open>a[i0:i1] = rhs\<close> for one-dimensional numpy arrays: the slice is clipped to \<open>a\<close>; \<open>rhs\<close>
  must have the length of the slice, or length one (it is then broadcast), else numpy
  raises.
\<close>

definition set_slice :: "'a list \<Rightarrow> nat \<Rightarrow> nat \<Rightarrow> 'a list \<Rightarrow> py_error + 'a list" where
  "set_slice a i0 i1 rhs =
     (let lo = min i0 (length a); hi = max lo (min i1 (length a)); m = hi - lo
      in if length rhs = m then Inr (take lo a @ rhs @ drop hi a)
         else if length rhs = 1 then Inr (take lo a @ replicate m (rhs ! 0) @ drop hi a)
         else Inl BroadcastError)"

section \<open>Problems, sub-functions and the composer\<close>

text \<open>
  A problem object: \<open>is\<close> compares the identity, the messages print the name.
\<close>

record opt_problem =
  prob_id :: nat
  prob_name :: string

text \<open>
  What the composer reads from a sub-function (an \<open>iwopy.core.OptFunction\<close>, whose class
  is not part of the sources at hand): its declared metadata and its two operations used
  here. \<open>'r\<close> is the opaque \<open>problem_results\<close>.
\<close>

record 'r opt_function =
  sub_name :: string
  sub_problem :: opt_problem
  sub_component_names :: "string list"
  sub_var_names_int :: "string list"
  sub_var_names_float :: "string list"
  sub_initialized :: bool
  sub_n_components :: nat
  sub_calc_individual :: "int list \<Rightarrow> float64 list \<Rightarrow> 'r \<Rightarrow> py_error + float64 list"
  sub_ana_deriv :: "int list \<Rightarrow> float64 list \<Rightarrow> nat \<Rightarrow> int list \<Rightarrow> py_error + float64 list"

record 'r opt_function_list =
  name :: string
  problem :: opt_problem
  initialized :: bool
  functions_fl :: "'r opt_function list"
  cnames :: "string list"
  vnamesi :: "string list"
  vnamesf :: "string list"
  func_vars_int :: "index_map list"
  func_vars_float :: "index_map list"
  sizes :: "nat list"

definition n_functions :: "'r opt_function_list \<Rightarrow> nat" where
  "n_functions s = length (functions_fl s)"

subsection \<open>append\<close>

text \<open>
  \<open>append\<close> returns the composer as the call leaves it together with the exception
  raised, if any, so that what a failing call did to the lists can be stated.
\<close>

definition append_fl ::
  "'r opt_function_list \<Rightarrow> 'r opt_function \<Rightarrow> 'r opt_function_list \<times> py_error option" where
  "append_fl s f =
     (if initialized s then
        (s, Some (ValueError (''FunctionList '' @ [CHR 0x27] @ name s @ [CHR 0x27]
           @ '': Attempt to add function '' @ [CHR 0x27] @ sub_name f @ [CHR 0x27]
           @ '' after initialization'')))
      else if prob_id (sub_problem f) \<noteq> prob_id (problem s) then
        (s, Some (ValueError (''FunctionList '' @ [CHR 0x27] @ name s @ [CHR 0x27]
           @ '': Cannot add function '' @ [CHR 0x27] @ sub_name f @ [CHR 0x27]
           @ '' since problems don'' @ [CHR 0x27] @ ''t match. Expected ''
           @ [CHR 0x27] @ prob_name (problem s) @ [CHR 0x27] @ '', found ''
           @ [CHR 0x27] @ prob_name (sub_problem f) @ [CHR 0x27])))
      else
        (s\<lparr>functions_fl := functions_fl s @ [f], cnames := cnames s @ sub_component_names f\<rparr>,
         None))"

subsection \<open>initialize\<close>

definition sub_initialize :: "'r opt_function \<Rightarrow> 'r opt_function" where
  \<comment> \<open>Modelled from the spec: \<open>OptFunction.initialize\<close> is not in the sources; the spec
      gives a sub-function's initialization no effect here but the flag.\<close>
  "sub_initialize f = f\<lparr>sub_initialized := True\<rparr>"

definition base_initialize :: "'r opt_function_list \<Rightarrow> 'r opt_function_list" where
  \<comment> \<open>Modelled from the spec: \<open>super().initialize(verbosity)\<close> of the missing base class
      marks the composer itself initialized.\<close>
  "base_initialize s = s\<lparr>initialized := True\<rparr>"

text \<open>The first loop of \<open>initialize\<close>, over \<open>self.functions\<close>.\<close>

fun init_loop ::
  "'r opt_function list \<Rightarrow> 'r opt_function list \<Rightarrow> string list \<Rightarrow> string list \<Rightarrow> nat list
   \<Rightarrow> 'r opt_function list \<times> string list \<times> string list \<times> nat list" where
  "init_loop [] fs vi vf sz = (fs, vi, vf, sz)"
| "init_loop (f # rest) fs vi vf sz =
     (let f' = (if \<not> sub_initialized f then sub_initialize f else f)
      in init_loop rest (fs @ [f']) (vi @ sub_var_names_int f') (vf @ sub_var_names_float f')
           (sz @ [sub_n_components f']))"

text \<open>
  The local function \<open>getv\<close>. \<open>l[0]\<close> and \<open>l[-1]\<close> are read only when \<open>fvnames\<close>, hence
  \<open>l\<close>, is not empty.
\<close>

definition getv :: "string list \<Rightarrow> string list \<Rightarrow> py_error + index_map" where
  "getv vnames fvnames =
     (if length fvnames = 0 then Inr (Positions [])
      else ebind (map_err (\<lambda>v. list_index vnames v) fvnames) (\<lambda>l.
        Inr (if [hd l..<last l] = l then Slice (hd l) (last l) else Positions l)))"

definition initialize :: "'r opt_function_list \<Rightarrow> py_error + 'r opt_function_list" where
  "initialize s =
     (case init_loop (functions_fl s) [] [] [] [] of (fs, vi, vf, sz) \<Rightarrow>
        let vni = dict_fromkeys vi; vnf = dict_fromkeys vf
        in ebind (map_err (\<lambda>f. getv vni (sub_var_names_int f)) fs) (\<lambda>fvi.
           ebind (map_err (\<lambda>f. getv vnf (sub_var_names_float f)) fs) (\<lambda>fvf.
             Inr (base_initialize
               (s\<lparr>functions_fl := fs, vnamesi := vni, vnamesf := vnf, sizes := sz,
                  func_vars_int := fvi, func_vars_float := fvf\<rparr>)))))"

definition n_components :: "'r opt_function_list \<Rightarrow> nat" where
  "n_components s = sum_list (sizes s)"

subsection \<open>split_individual and split_population\<close>

fun split_individual_loop ::
  "nat list \<Rightarrow> 'a list \<Rightarrow> nat list \<Rightarrow> nat \<Rightarrow> 'a list list \<Rightarrow> py_error + 'a list list" where
  "split_individual_loop sz data [] i0 out = Inr out"
| "split_individual_loop sz data (fi # rest) i0 out =
     ebind (list_get sz fi) (\<lambda>n.
       let i1 = i0 + n
       in split_individual_loop sz data rest i1 (out @ [np_slice data i0 i1]))"

definition split_individual ::
  "'r opt_function_list \<Rightarrow> 'a list \<Rightarrow> py_error + 'a list list" where
  "split_individual s data =
     split_individual_loop (sizes s) data [0..<n_functions s] 0 []"

text \<open>
  A two-axis array is the list of its rows; \<open>data[:, i0:i1]\<close> slices every row.
\<close>

fun split_population_loop ::
  "nat list \<Rightarrow> 'a list list \<Rightarrow> nat list \<Rightarrow> nat \<Rightarrow> 'a list list list
   \<Rightarrow> py_error + 'a list list list" where
  "split_population_loop sz data [] i0 out = Inr out"
| "split_population_loop sz data (fi # rest) i0 out =
     ebind (list_get sz fi) (\<lambda>n.
       let i1 = i0 + n
       in split_population_loop sz data rest i1
            (out @ [map (\<lambda>row. np_slice row i0 i1) data]))"

definition split_population ::
  "'r opt_function_list \<Rightarrow> 'a list list \<Rightarrow> py_error + 'a list list list" where
  "split_population s data =
     split_population_loop (sizes s) data [0..<n_functions s] 0 []"

subsection \<open>calc_individual\<close>

text \<open>
  The loop \<open>for fi, f in enumerate(self.functions)\<close>: \<open>fi\<close> counts the sub-functions
  done, \<open>i0\<close> is the offset reached and \<open>values\<close> the buffer.
\<close>

fun calc_individual_loop ::
  "'r opt_function_list \<Rightarrow> int list \<Rightarrow> float64 list \<Rightarrow> 'r \<Rightarrow> nat \<Rightarrow> 'r opt_function list
   \<Rightarrow> nat \<Rightarrow> float64 list \<Rightarrow> py_error + float64 list" where
  "calc_individual_loop s vars_int vars_float pr fi [] i0 values = Inr values"
| "calc_individual_loop s vars_int vars_float pr fi (f # rest) i0 values =
     ebind (list_get (sizes s) fi) (\<lambda>n.
       let i1 = i0 + n in
       ebind (list_get (func_vars_int s) fi) (\<lambda>mi.
       ebind (take_index vars_int mi) (\<lambda>varsi.
       ebind (list_get (func_vars_float s) fi) (\<lambda>mf.
       ebind (take_index vars_float mf) (\<lambda>varsf.
       ebind (sub_calc_individual f varsi varsf pr) (\<lambda>res.
       ebind (set_slice values i0 i1 res) (\<lambda>values'.
         calc_individual_loop s vars_int vars_float pr (Suc fi) rest i1 values')))))))"

definition calc_individual ::
  "'r opt_function_list \<Rightarrow> int list \<Rightarrow> float64 list \<Rightarrow> 'r \<Rightarrow> py_error + float64 list" where
  "calc_individual s vars_int vars_float pr =
     calc_individual_loop s vars_int vars_float pr 0 (functions_fl s) 0
       (replicate (n_components s) NaN)"

subsection \<open>ana_deriv\<close>

text \<open>The first loop: the requested components of each sub-function.\<close>

fun cmpnts_loop :: "nat list \<Rightarrow> int list option \<Rightarrow> nat \<Rightarrow> int list list \<Rightarrow> int list list" where
  "cmpnts_loop [] components i0 cmpnts = cmpnts"
| "cmpnts_loop (n # rest) components i0 cmpnts =
     (let i1 = i0 + n
      in cmpnts_loop rest components i1
           (cmpnts @ [case components of
                        None \<Rightarrow> map int [i0..<i1]
                      | Some cs \<Rightarrow> filter (\<lambda>c. c \<ge> int i0 \<and> c < int i1) cs]))"

text \<open>
  The second loop. The condition \<open>c1 > c0 and var in list(self.func_vars_float[fi])\<close>
  reads the mapping only when \<open>c1 > c0\<close>.
\<close>

fun ana_deriv_loop ::
  "'r opt_function_list \<Rightarrow> int list \<Rightarrow> float64 list \<Rightarrow> int \<Rightarrow> int list list \<Rightarrow> nat
   \<Rightarrow> 'r opt_function list \<Rightarrow> nat \<Rightarrow> nat \<Rightarrow> float64 list \<Rightarrow> py_error + float64 list" where
  "ana_deriv_loop s vars_int vars_float var cmpnts fi [] i0 c0 deriv = Inr deriv"
| "ana_deriv_loop s vars_int vars_float var cmpnts fi (f # rest) i0 c0 deriv =
     ebind (list_get (sizes s) fi) (\<lambda>n.
       let i1 = i0 + n in
       ebind (list_get cmpnts fi) (\<lambda>cs.
       let c1 = c0 + length cs in
       ebind (if c1 > c0
              then ebind (list_get (func_vars_float s) fi) (\<lambda>mf.
                   ebind (list_of_index mf) (\<lambda>l. Inr (var \<in> set (map int l))))
              else Inr False) (\<lambda>dep.
       if dep then
         ebind (list_get (func_vars_int s) fi) (\<lambda>mi.
         ebind (take_index vars_int mi) (\<lambda>varsi.
         ebind (list_get (func_vars_float s) fi) (\<lambda>mf.
         ebind (take_index vars_float mf) (\<lambda>varsf.
         ebind (list_of_index mf) (\<lambda>l.
         ebind (list_index (map int l) var) (\<lambda>vi.
         ebind (sub_ana_deriv f varsi varsf vi cs) (\<lambda>res.
         ebind (set_slice deriv c0 c1 res) (\<lambda>deriv'.
           ana_deriv_loop s vars_int vars_float var cmpnts (Suc fi) rest i1 c1 deriv'))))))))
       else ana_deriv_loop s vars_int vars_float var cmpnts (Suc fi) rest i1 c1 deriv)))"

definition ana_deriv ::
  "'r opt_function_list \<Rightarrow> int list \<Rightarrow> float64 list \<Rightarrow> int \<Rightarrow> int list option
   \<Rightarrow> py_error + float64 list" where
  "ana_deriv s vars_int vars_float var components =
     (let cmpnts = cmpnts_loop (sizes s) components 0 [];
          n_cmpnts = (case components of Some cs \<Rightarrow> length cs | None \<Rightarrow> n_components s);
          deriv = replicate n_cmpnts NaN
      in ana_deriv_loop s vars_int vars_float var cmpnts 0 (functions_fl s) 0 0 deriv)"

section \<open>Specification-level notions\<close>

text \<open>
  The registry as the specification words it: the concatenated names with duplicates
  removed, the first occurrence of each name kept in place.
\<close>

fun dedup_first_seen :: "'a list \<Rightarrow> 'a list" where
  "dedup_first_seen [] = []"
| "dedup_first_seen (x # xs) = x # dedup_first_seen (filter (\<lambda>y. y \<noteq> x) xs)"

text \<open>
  A stored mapping is right for a sub-function when it is the explicit list of the
  registry positions of the sub-function's variable names, in the declared order.
\<close>

definition mapping_ok :: "string list \<Rightarrow> string list \<Rightarrow> index_map \<Rightarrow> bool" where
  "mapping_ok vnames fvnames m =
     (case map_err (\<lambda>v. list_index vnames v) fvnames of
        Inl e \<Rightarrow> False | Inr l \<Rightarrow> m = Positions l)"

text \<open>What \<open>initialize\<close> does to one sub-function, and the state it establishes.\<close>

definition initialized_inv :: "'r opt_function_list \<Rightarrow> bool" where
  "initialized_inv s \<longleftrightarrow>
     initialized s \<and>
     sizes s = map sub_n_components (functions_fl s) \<and>
     vnamesi s = dict_fromkeys (concat (map sub_var_names_int (functions_fl s))) \<and>
     vnamesf s = dict_fromkeys (concat (map sub_var_names_float (functions_fl s))) \<and>
     list_all2 (\<lambda>f m. mapping_ok (vnamesi s) (sub_var_names_int f) m)
       (functions_fl s) (func_vars_int s) \<and>
     list_all2 (\<lambda>f m. mapping_ok (vnamesf s) (sub_var_names_float f) m)
       (functions_fl s) (func_vars_float s)"

definition init_function :: "'r opt_function \<Rightarrow> 'r opt_function" where
  "init_function f = (if \<not> sub_initialized f then sub_initialize f else f)"

text \<open>
  The local variable vector of a sub-function: a registry-ordered vector of values
  assigns \<open>vals ! p\<close> to the name \<open>registry ! p\<close>; the local vector lists, in the
  sub-function's declared order, the value assigned to each declared name.
\<close>

definition is_local_vector :: "string list \<Rightarrow> 'a list \<Rightarrow> string list \<Rightarrow> 'a list \<Rightarrow> bool" where
  "is_local_vector registry vals declared loc \<longleftrightarrow>
     map Some loc = map (map_of (zip registry vals)) declared"

text \<open>
  The offset ranges of the ledger: the cumulative sums of the component counts cut the
  flat component vector into consecutive ranges \<open>[i0, i1)\<close>, one per sub-function;
  \<open>offset sz fi\<close> is where the range of sub-function \<open>fi\<close> starts.
\<close>

fun ledger_ranges :: "nat list \<Rightarrow> nat \<Rightarrow> (nat \<times> nat) list" where
  "ledger_ranges [] i0 = []"
| "ledger_ranges (n # ns) i0 = (i0, i0 + n) # ledger_ranges ns (i0 + n)"

definition offset :: "nat list \<Rightarrow> nat \<Rightarrow> nat" where
  "offset sz fi = sum_list (take fi sz)"

text \<open>
  Concatenating two-axis pieces along the second axis: row \<open>r\<close> of the result is the
  concatenation of the rows \<open>r\<close> of the pieces.
\<close>

definition concat_axis1 :: "nat \<Rightarrow> 'a list list list \<Rightarrow> 'a list list" where
  "concat_axis1 n_pop pieces = map (\<lambda>r. concat (map (\<lambda>p. p ! r) pieces)) [0..<n_pop]"

text \<open>
  The derivative composition in the specification's terms. \<open>requested sz components fi\<close>
  is the subset of the requested components that falls into the ledger range of
  sub-function \<open>fi\<close> (all of the range when no selection is given), as global component
  offsets and in the caller's order.
\<close>

definition requested :: "nat list \<Rightarrow> int list option \<Rightarrow> nat \<Rightarrow> int list" where
  "requested sz components fi =
     (case components of
        None \<Rightarrow> map int [offset sz fi..<offset sz (Suc fi)]
      | Some cs \<Rightarrow> filter (\<lambda>c. int (offset sz fi) \<le> c \<and> c < int (offset sz (Suc fi))) cs)"

text \<open>Sub-function \<open>fi\<close> depends on \<open>var\<close>: \<open>var\<close> is in its float index mapping.\<close>

definition depends_on :: "'r opt_function_list \<Rightarrow> int \<Rightarrow> nat \<Rightarrow> bool" where
  "depends_on s var fi =
     (case list_of_index (func_vars_float s ! fi) of
        Inl e \<Rightarrow> False | Inr l \<Rightarrow> var \<in> set (map int l))"

text \<open>
  The call the composer makes to sub-function \<open>f\<close>, the \<open>fi\<close>-th of the list, when it
  delegates the component list \<open>cs\<close>: the local variable slices, and \<open>var\<close> replaced by
  its rank in the sub-function's float mapping.
\<close>

definition delegate ::
  "'r opt_function_list \<Rightarrow> int list \<Rightarrow> float64 list \<Rightarrow> int \<Rightarrow> nat \<Rightarrow> 'r opt_function
   \<Rightarrow> int list \<Rightarrow> py_error + float64 list" where
  "delegate s vars_int vars_float var fi f cs =
     ebind (take_index vars_int (func_vars_int s ! fi)) (\<lambda>varsi.
     ebind (take_index vars_float (func_vars_float s ! fi)) (\<lambda>varsf.
     ebind (list_of_index (func_vars_float s ! fi)) (\<lambda>l.
     ebind (list_index (map int l) var) (\<lambda>vi.
       sub_ana_deriv f varsi varsf vi cs))))"


section \<open>A composer of three sub-functions\<close>

text \<open>
  Three sub-functions with 1, 2 and 2 components, owning the offsets \<open>[0,1)\<close>, \<open>[1,3)\<close>
  and \<open>[3,5)\<close>; the float registry is \<open>[x, y, z]\<close>, the second sub-function declares
  \<open>[x, z]\<close> and the third \<open>[y]\<close>. Their derivative operation answers, for each
  component index it is asked for, that index as a number, so that the result shows
  which component indices a sub-function received.
\<close>

definition ex_problem :: opt_problem where
  "ex_problem = \<lparr>prob_id = 1, prob_name = ''p''\<rparr>"

definition ex_deriv :: "int list \<Rightarrow> float64 list \<Rightarrow> nat \<Rightarrow> int list \<Rightarrow> py_error + float64 list" where
  "ex_deriv varsi varsf vi cs = Inr (map (\<lambda>c. Num (of_int c)) cs)"

definition ex_C :: "bool \<Rightarrow> unit opt_function" where
  "ex_C ini = \<lparr>sub_name = ''c'', sub_problem = ex_problem, sub_component_names = [''c''],
     sub_var_names_int = [], sub_var_names_float = [''x'', ''y''], sub_initialized = ini,
     sub_n_components = 1,
     sub_calc_individual = (\<lambda>varsi varsf pr. Inr (take 1 varsf)),
     sub_ana_deriv = ex_deriv\<rparr>"

definition ex_A :: "bool \<Rightarrow> unit opt_function" where
  "ex_A ini = \<lparr>sub_name = ''a'', sub_problem = ex_problem, sub_component_names = [''a_0'', ''a_1''],
     sub_var_names_int = [''k''], sub_var_names_float = [''x'', ''z''], sub_initialized = ini,
     sub_n_components = 2,
     sub_calc_individual = (\<lambda>varsi varsf pr. Inr varsf),
     sub_ana_deriv = ex_deriv\<rparr>"

definition ex_B :: "bool \<Rightarrow> unit opt_function" where
  "ex_B ini = \<lparr>sub_name = ''b'', sub_problem = ex_problem, sub_component_names = [''b_0'', ''b_1''],
     sub_var_names_int = [], sub_var_names_float = [''y''], sub_initialized = ini,
     sub_n_components = 2,
     sub_calc_individual = (\<lambda>varsi varsf pr. Inr (varsf @ varsf)),
     sub_ana_deriv = ex_deriv\<rparr>"

definition ex_new :: "unit opt_function_list" where
  "ex_new = \<lparr>name = ''fl'', problem = ex_problem, initialized = False,
     functions_fl = [ex_C False, ex_A False, ex_B False],
     cnames = [''c'', ''a_0'', ''a_1'', ''b_0'', ''b_1''],
     vnamesi = [], vnamesf = [], func_vars_int = [], func_vars_float = [], sizes = []\<rparr>"

definition ex_ready :: "unit opt_function_list" where
  "ex_ready = \<lparr>name = ''fl'', problem = ex_problem, initialized = True,
     functions_fl = [ex_C True, ex_A True, ex_B True],
     cnames = [''c'', ''a_0'', ''a_1'', ''b_0'', ''b_1''],
     vnamesi = [''k''], vnamesf = [''x'', ''y'', ''z''],
     func_vars_int = [Positions [], Positions [0], Positions []],
     func_vars_float = [Positions [0, 1], Positions [0, 2], Positions [1]],
     sizes = [1, 2, 2]\<rparr>"

text \<open>A sub-function of another problem.\<close>

definition ex_other :: "unit opt_function" where
  "ex_other = \<lparr>sub_name = ''g'', sub_problem = \<lparr>prob_id = 2, prob_name = ''q''\<rparr>,
     sub_component_names = [''g''], sub_var_names_int = [], sub_var_names_float = [''x''],
     sub_initialized = False, sub_n_components = 1,
     sub_calc_individual = (\<lambda>varsi varsf pr. Inr varsf), sub_ana_deriv = ex_deriv\<rparr>"

section \<open>Basic facts\<close>

lemma ebind_Inr [simp]: "ebind (Inr x) k = k x"
  by (simp add: ebind_def)

lemma ebind_Inl [simp]: "ebind (Inl e) k = Inl e"
  by (simp add: ebind_def)

lemma ebind_eq_Inr: "ebind m k = Inr y \<longleftrightarrow> (\<exists>x. m = Inr x \<and> k x = Inr y)"
  by (cases m) simp_all

lemma fold_fromkeys:
  "fold (\<lambda>k d. if k \<in> set d then d else d @ [k]) xs d
     = d @ dedup_first_seen (filter (\<lambda>x. x \<notin> set d) xs)"
proof (induction xs arbitrary: d)
  case Nil
  show ?case by simp
next
  case (Cons x xs)
  have eq: "filter (\<lambda>y. y \<notin> set (d @ [x])) xs
              = filter (\<lambda>y. y \<noteq> x) (filter (\<lambda>y. y \<notin> set d) xs)"
    by (induction xs) auto
  show ?case
  proof (cases "x \<in> set d")
    case True
    then show ?thesis using Cons.IH [of d] by simp
  next
    case False
    then show ?thesis using Cons.IH [of "d @ [x]"] eq by simp
  qed
qed

lemma dict_fromkeys_dedup: "dict_fromkeys xs = dedup_first_seen xs"
  by (simp add: dict_fromkeys_def fold_fromkeys)

lemma set_dedup_first_seen [simp]: "set (dedup_first_seen xs) = set xs"
  by (induction xs rule: dedup_first_seen.induct) auto

lemma distinct_dedup_first_seen [simp]: "distinct (dedup_first_seen xs)"
  by (induction xs rule: dedup_first_seen.induct) auto

lemma init_loop_eq:
  "init_loop fs acc vi vf sz =
     (acc @ map (\<lambda>f. if \<not> sub_initialized f then sub_initialize f else f) fs,
      vi @ concat (map sub_var_names_int fs),
      vf @ concat (map sub_var_names_float fs),
      sz @ map sub_n_components fs)"
  by (induction fs arbitrary: acc vi vf sz) (simp_all add: sub_initialize_def Let_def)

lemma list_index_Inr:
  "list_index xs v = Inr i \<Longrightarrow> i < length xs \<and> xs ! i = v \<and> (\<forall>j<i. xs ! j \<noteq> v)"
proof (induction xs arbitrary: i)
  case Nil
  then show ?case by simp
next
  case (Cons x xs)
  show ?case
  proof (cases "x = v")
    case True
    with Cons.prems show ?thesis by simp
  next
    case False
    with Cons.prems obtain k where k: "list_index xs v = Inr k" "i = Suc k"
      by (auto simp: ebind_eq_Inr)
    from Cons.IH [OF k(1)] False k(2) show ?thesis
      by (auto simp: nth_Cons split: nat.splits)
  qed
qed

lemma list_index_mem: "v \<in> set xs \<Longrightarrow> \<exists>i. list_index xs v = Inr i"
  by (induction xs) auto

lemma list_index_not_mem: "v \<notin> set xs \<Longrightarrow> list_index xs v = Inl NotInList"
  by (induction xs) auto

lemma upt_hd_last_neq: "l \<noteq> [] \<Longrightarrow> [hd l..<last l] \<noteq> l"
proof
  assume ne: "l \<noteq> []" and eq: "[hd l..<last l] = l"
  from ne eq have lt: "hd l < last l" by (metis upt_eq_Nil_conv not_le)
  then have "last [hd l..<last l] = last l - 1" by (simp add: last_upt)
  with eq lt show False by simp
qed


lemma map_err_Inr_iff:
  "map_err g xs = Inr ys \<longleftrightarrow> list_all2 (\<lambda>x y. g x = Inr y) xs ys"
proof (induction xs arbitrary: ys)
  case Nil
  show ?case by auto
next
  case (Cons x xs)
  show ?case
    by (cases ys) (auto simp: ebind_eq_Inr Cons.IH)
qed

lemma map_err_total:
  "(\<And>x. x \<in> set xs \<Longrightarrow> \<exists>y. g x = Inr y) \<Longrightarrow> \<exists>ys. map_err g xs = Inr ys"
proof (induction xs)
  case Nil
  show ?case by simp
next
  case (Cons x xs)
  then obtain y ys where "g x = Inr y" "map_err g xs = Inr ys"
    by (metis list.set_intros)
  then show ?case by simp
qed

lemma getv_eq:
  "getv vnames fvnames =
     ebind (map_err (\<lambda>v. list_index vnames v) fvnames) (\<lambda>l. Inr (Positions l))"
proof (cases "fvnames = []")
  case True
  then show ?thesis by (simp add: getv_def)
next
  case False
  show ?thesis
  proof (cases "map_err (\<lambda>v. list_index vnames v) fvnames")
    case (Inl e)
    with False show ?thesis by (simp add: getv_def)
  next
    case (Inr l)
    then have "length l = length fvnames"
      by (simp add: map_err_Inr_iff list_all2_lengthD)
    with False have "l \<noteq> []" by auto
    then have "[hd l..<last l] \<noteq> l" by (rule upt_hd_last_neq)
    with False Inr show ?thesis by (simp add: getv_def)
  qed
qed

lemma getv_mapping_ok: "getv vnames fvnames = Inr m \<Longrightarrow> mapping_ok vnames fvnames m"
  by (auto simp: getv_eq mapping_ok_def ebind_eq_Inr)

lemma getv_total: "set fvnames \<subseteq> set vnames \<Longrightarrow> \<exists>m. getv vnames fvnames = Inr m"
proof -
  assume "set fvnames \<subseteq> set vnames"
  then have "\<exists>l. map_err (\<lambda>v. list_index vnames v) fvnames = Inr l"
    by (intro map_err_total list_index_mem) auto
  then show ?thesis by (auto simp: getv_eq)
qed

lemma init_function_simps [simp]:
  "sub_var_names_int (init_function f) = sub_var_names_int f"
  "sub_var_names_float (init_function f) = sub_var_names_float f"
  "sub_n_components (init_function f) = sub_n_components f"
  by (simp_all add: init_function_def sub_initialize_def)

lemma initialize_Inr:
  assumes "initialize s = Inr s'"
  shows "functions_fl s' = map init_function (functions_fl s)"
    and "initialized_inv s'"
    and "name s' = name s" and "problem s' = problem s" and "cnames s' = cnames s"
proof -
  let ?fs = "map init_function (functions_fl s)"
  let ?vni = "dict_fromkeys (concat (map sub_var_names_int (functions_fl s)))"
  let ?vnf = "dict_fromkeys (concat (map sub_var_names_float (functions_fl s)))"
  have loop: "init_loop (functions_fl s) [] [] [] [] =
      (?fs, concat (map sub_var_names_int (functions_fl s)),
       concat (map sub_var_names_float (functions_fl s)),
       map sub_n_components (functions_fl s))"
    by (simp add: init_loop_eq init_function_def)
  from assms obtain fvi fvf where
    fvi: "map_err (\<lambda>f. getv ?vni (sub_var_names_int f)) ?fs = Inr fvi" and
    fvf: "map_err (\<lambda>f. getv ?vnf (sub_var_names_float f)) ?fs = Inr fvf" and
    s': "s' = base_initialize (s\<lparr>functions_fl := ?fs, vnamesi := ?vni, vnamesf := ?vnf,
            sizes := map sub_n_components (functions_fl s),
            func_vars_int := fvi, func_vars_float := fvf\<rparr>)"
    by (auto simp: initialize_def loop Let_def ebind_eq_Inr)
  from fvi have oki: "list_all2 (\<lambda>f m. mapping_ok ?vni (sub_var_names_int f) m) ?fs fvi"
    unfolding map_err_Inr_iff by (rule list_all2_mono) (rule getv_mapping_ok)
  from fvf have okf: "list_all2 (\<lambda>f m. mapping_ok ?vnf (sub_var_names_float f) m) ?fs fvf"
    unfolding map_err_Inr_iff by (rule list_all2_mono) (rule getv_mapping_ok)
  show "functions_fl s' = map init_function (functions_fl s)"
    by (simp add: s' base_initialize_def)
  show "initialized_inv s'"
    using oki okf by (simp add: initialized_inv_def s' base_initialize_def comp_def)
  show "name s' = name s" "problem s' = problem s" "cnames s' = cnames s"
    by (simp_all add: s' base_initialize_def)
qed

lemma initialize_total: "\<exists>s'. initialize s = Inr s'"
proof -
  let ?fs = "map init_function (functions_fl s)"
  let ?vni = "dict_fromkeys (concat (map sub_var_names_int (functions_fl s)))"
  let ?vnf = "dict_fromkeys (concat (map sub_var_names_float (functions_fl s)))"
  have loop: "init_loop (functions_fl s) [] [] [] [] =
      (?fs, concat (map sub_var_names_int (functions_fl s)),
       concat (map sub_var_names_float (functions_fl s)),
       map sub_n_components (functions_fl s))"
    by (simp add: init_loop_eq init_function_def)
  have "\<exists>fvi. map_err (\<lambda>f. getv ?vni (sub_var_names_int f)) ?fs = Inr fvi"
    by (rule map_err_total, rule getv_total) (auto simp: dict_fromkeys_dedup)
  moreover have "\<exists>fvf. map_err (\<lambda>f. getv ?vnf (sub_var_names_float f)) ?fs = Inr fvf"
    by (rule map_err_total, rule getv_total) (auto simp: dict_fromkeys_dedup)
  ultimately show ?thesis
    by (auto simp: initialize_def loop Let_def)
qed

lemma ex_initialize: "initialize ex_new = Inr ex_ready"
  by (simp add: initialize_def ex_new_def ex_ready_def ex_C_def ex_A_def ex_B_def
      sub_initialize_def base_initialize_def dict_fromkeys_def getv_def Let_def)


lemma count_list_distinct: "distinct xs \<Longrightarrow> x \<in> set xs \<Longrightarrow> count_list xs x = 1"
  by (induction xs) auto

section \<open>The ledger and the registry after initialization\<close>

text \<open>
  C9: after initialization the component ledger \<open>sizes\<close> holds one entry per registered
  sub-function, equal to that sub-function's declared component count, in registration
  order (initialization changes no declared count), and the sum of the ledger is the
  composer's \<open>n_components()\<close>.
\<close>

theorem ledger_after_initialize:
  assumes "initialize s = Inr s'"
  shows "sizes s' = map sub_n_components (functions_fl s')
       \<and> map sub_n_components (functions_fl s') = map sub_n_components (functions_fl s)
       \<and> length (sizes s') = n_functions s'
       \<and> sum_list (sizes s') = n_components s'
       \<and> n_components s' = sum_list (map sub_n_components (functions_fl s'))"
proof -
  from initialize_Inr(1,2) [OF assms]
  have fs: "functions_fl s' = map init_function (functions_fl s)"
    and sz: "sizes s' = map sub_n_components (functions_fl s')"
    by (simp_all add: initialized_inv_def)
  show ?thesis
    by (simp add: sz n_functions_def n_components_def) (simp add: fs comp_def)
qed

theorem ledger_after_initialize_witness:
  "initialize ex_new = Inr ex_ready
   \<and> sizes ex_ready = [1, 2, 2] \<and> n_functions ex_ready = 3 \<and> n_components ex_ready = 5"
proof -
  have "sizes ex_ready = [1, 2, 2]" by (simp add: ex_ready_def)
  with ledger_after_initialize [OF ex_initialize] ex_initialize show ?thesis
    by simp
qed

text \<open>
  C8: after initialization each of the two registry sequences is the concatenation of the
  registered sub-functions' variable-name lists of that namespace, in registration order,
  with duplicates removed and the first occurrence kept in place; every name of any
  sub-function's list occurs exactly once in the registry of its namespace.
\<close>

theorem registry_after_initialize:
  assumes "initialize s = Inr s'"
  shows "vnamesi s' = dedup_first_seen (concat (map sub_var_names_int (functions_fl s)))
       \<and> vnamesf s' = dedup_first_seen (concat (map sub_var_names_float (functions_fl s)))
       \<and> map sub_var_names_int (functions_fl s') = map sub_var_names_int (functions_fl s)
       \<and> map sub_var_names_float (functions_fl s') = map sub_var_names_float (functions_fl s)
       \<and> (\<forall>f \<in> set (functions_fl s'). \<forall>v \<in> set (sub_var_names_int f).
             count_list (vnamesi s') v = 1)
       \<and> (\<forall>f \<in> set (functions_fl s'). \<forall>v \<in> set (sub_var_names_float f).
             count_list (vnamesf s') v = 1)"
proof -
  from initialize_Inr(1,2) [OF assms]
  have fs: "functions_fl s' = map init_function (functions_fl s)"
    and inv: "initialized_inv s'"
    by simp_all
  have ni: "map sub_var_names_int (functions_fl s') = map sub_var_names_int (functions_fl s)"
    and nf: "map sub_var_names_float (functions_fl s') = map sub_var_names_float (functions_fl s)"
    by (simp_all add: fs comp_def)
  from inv
  have vi: "vnamesi s' = dedup_first_seen (concat (map sub_var_names_int (functions_fl s')))"
    and vf: "vnamesf s' = dedup_first_seen (concat (map sub_var_names_float (functions_fl s')))"
    by (simp_all add: initialized_inv_def dict_fromkeys_dedup)
  have ci: "\<forall>f \<in> set (functions_fl s'). \<forall>v \<in> set (sub_var_names_int f).
      count_list (vnamesi s') v = 1"
  proof (intro ballI)
    fix f v assume "f \<in> set (functions_fl s')" "v \<in> set (sub_var_names_int f)"
    then have "v \<in> set (vnamesi s')" by (auto simp: vi)
    moreover have "distinct (vnamesi s')" by (simp add: vi)
    ultimately show "count_list (vnamesi s') v = 1" by (rule count_list_distinct [rotated])
  qed
  have cf: "\<forall>f \<in> set (functions_fl s'). \<forall>v \<in> set (sub_var_names_float f).
      count_list (vnamesf s') v = 1"
  proof (intro ballI)
    fix f v assume "f \<in> set (functions_fl s')" "v \<in> set (sub_var_names_float f)"
    then have "v \<in> set (vnamesf s')" by (auto simp: vf)
    moreover have "distinct (vnamesf s')" by (simp add: vf)
    ultimately show "count_list (vnamesf s') v = 1" by (rule count_list_distinct [rotated])
  qed
  from vi vf ci cf show ?thesis unfolding ni nf by blast
qed

theorem registry_after_initialize_witness:
  "initialize ex_new = Inr ex_ready
   \<and> vnamesf ex_ready = [''x'', ''y'', ''z'']
   \<and> vnamesf ex_ready = dedup_first_seen ([''x'', ''y''] @ [''x'', ''z''] @ [''y''])
   \<and> count_list (vnamesf ex_ready) ''y'' = 1"
proof -
  have fs: "ex_B True \<in> set (functions_fl ex_ready)"
    by (simp add: ex_ready_def)
  have y: "''y'' \<in> set (sub_var_names_float (ex_B True))" by (simp add: ex_B_def)
  from registry_after_initialize [OF ex_initialize]
  have "\<forall>f \<in> set (functions_fl ex_ready). \<forall>v \<in> set (sub_var_names_float f).
          count_list (vnamesf ex_ready) v = 1"
    by blast
  with fs y have "count_list (vnamesf ex_ready) ''y'' = 1" by blast
  moreover have "vnamesf ex_ready = [''x'', ''y'', ''z'']" by (simp add: ex_ready_def)
  ultimately show ?thesis using ex_initialize by simp
qed

section \<open>The index mappings\<close>

text \<open>
  C2, the part on consecutive runs: the claim asks for a contiguous range when the
  positions are consecutive. \<open>getv\<close> compares the positions \<open>l\<close> with
  \<open>range(l[0], l[-1])\<close>, which leaves out \<open>l[-1]\<close> and so never equals a non-empty
  \<open>l\<close> (lemma \<open>getv_eq\<close>): for the names \<open>x, y\<close> at the positions 0 and 1 of the
  registry the stored mapping is the explicit list \<open>[0, 1]\<close>, not a range.
\<close>

theorem getv_consecutive_run_not_collapsed:
  "getv [''x'', ''y'', ''z''] [''x'', ''y''] = Inr (Positions [0, 1])"
  by (simp add: getv_def)

section \<open>Registration\<close>

lemma append_fl_accepts:
  "\<not> initialized s \<Longrightarrow> prob_id (sub_problem f) = prob_id (problem s) \<Longrightarrow>
   append_fl s f =
     (s\<lparr>functions_fl := functions_fl s @ [f], cnames := cnames s @ sub_component_names f\<rparr>, None)"
  by (simp add: append_fl_def)

text \<open>
  C6: \<open>append\<close> raises an error whose message names the composer and the rejected
  sub-function when the composer is already initialized, and one naming both (and the
  two problems) when the sub-function's problem is not the composer's; in both cases the
  composer is left as it was: neither the function list nor the component-name list has
  changed.
\<close>

theorem append_rejects_unchanged:
  "(initialized s \<longrightarrow>
      append_fl s f =
        (s, Some (ValueError (''FunctionList '' @ [CHR 0x27] @ name s @ [CHR 0x27]
           @ '': Attempt to add function '' @ [CHR 0x27] @ sub_name f @ [CHR 0x27]
           @ '' after initialization''))))
   \<and> (\<not> initialized s \<and> prob_id (sub_problem f) \<noteq> prob_id (problem s) \<longrightarrow>
      append_fl s f =
        (s, Some (ValueError (''FunctionList '' @ [CHR 0x27] @ name s @ [CHR 0x27]
           @ '': Cannot add function '' @ [CHR 0x27] @ sub_name f @ [CHR 0x27]
           @ '' since problems don'' @ [CHR 0x27] @ ''t match. Expected ''
           @ [CHR 0x27] @ prob_name (problem s) @ [CHR 0x27] @ '', found ''
           @ [CHR 0x27] @ prob_name (sub_problem f) @ [CHR 0x27]))))
   \<and> (snd (append_fl s f) \<noteq> None \<longrightarrow>
        functions_fl (fst (append_fl s f)) = functions_fl s
      \<and> cnames (fst (append_fl s f)) = cnames s)"
  by (simp add: append_fl_def)

theorem append_rejects_unchanged_witness:
  "initialized ex_ready
   \<and> append_fl ex_ready (ex_B False) =
       (ex_ready, Some (ValueError
          (''FunctionList '' @ [CHR 0x27] @ ''fl'' @ [CHR 0x27] @ '': Attempt to add function ''
           @ [CHR 0x27] @ ''b'' @ [CHR 0x27] @ '' after initialization'')))
   \<and> \<not> initialized ex_new \<and> prob_id (sub_problem ex_other) \<noteq> prob_id (problem ex_new)
   \<and> append_fl ex_new ex_other =
       (ex_new, Some (ValueError
          (''FunctionList '' @ [CHR 0x27] @ ''fl'' @ [CHR 0x27] @ '': Cannot add function ''
           @ [CHR 0x27] @ ''g'' @ [CHR 0x27] @ '' since problems don'' @ [CHR 0x27]
           @ ''t match. Expected '' @ [CHR 0x27] @ ''p'' @ [CHR 0x27] @ '', found ''
           @ [CHR 0x27] @ ''q'' @ [CHR 0x27])))
   \<and> cnames (fst (append_fl ex_new ex_other)) = cnames ex_new
   \<and> functions_fl (fst (append_fl ex_new ex_other)) = functions_fl ex_new"
proof -
  have i: "initialized ex_ready" and n: "name ex_ready = ''fl''"
    by (simp_all add: ex_ready_def)
  have j: "\<not> initialized ex_new" and m: "name ex_new = ''fl''"
    and p: "prob_id (sub_problem ex_other) \<noteq> prob_id (problem ex_new)"
    and q: "prob_name (problem ex_new) = ''p''" "prob_name (sub_problem ex_other) = ''q''"
           "sub_name ex_other = ''g''"
    by (simp_all add: ex_new_def ex_other_def ex_problem_def)
  have b: "sub_name (ex_B False) = ''b''" by (simp add: ex_B_def)
  from append_rejects_unchanged [of ex_ready "ex_B False"] i n b
  have 1: "append_fl ex_ready (ex_B False) =
       (ex_ready, Some (ValueError
          (''FunctionList '' @ [CHR 0x27] @ ''fl'' @ [CHR 0x27] @ '': Attempt to add function ''
           @ [CHR 0x27] @ ''b'' @ [CHR 0x27] @ '' after initialization'')))"
    by simp
  from append_rejects_unchanged [of ex_new ex_other] j m p q
  have 2: "append_fl ex_new ex_other =
       (ex_new, Some (ValueError
          (''FunctionList '' @ [CHR 0x27] @ ''fl'' @ [CHR 0x27] @ '': Cannot add function ''
           @ [CHR 0x27] @ ''g'' @ [CHR 0x27] @ '' since problems don'' @ [CHR 0x27]
           @ ''t match. Expected '' @ [CHR 0x27] @ ''p'' @ [CHR 0x27] @ '', found ''
           @ [CHR 0x27] @ ''q'' @ [CHR 0x27])))"
    by simp
  from i j p 1 2 show ?thesis by simp
qed


section \<open>Applying an index mapping\<close>

lemma mapping_ok_take_index:
  assumes ok: "mapping_ok vnames fvnames m"
    and len: "length vals = length vnames"
    and dist: "distinct vnames"
  shows "\<exists>loc. take_index vals m = Inr loc \<and> is_local_vector vnames vals fvnames loc"
proof -
  from ok obtain l where l: "map_err (\<lambda>v. list_index vnames v) fvnames = Inr l"
    and m: "m = Positions l"
    by (auto simp: mapping_ok_def split: sum.splits)
  from l have all2: "list_all2 (\<lambda>v i. list_index vnames v = Inr i) fvnames l"
    by (simp add: map_err_Inr_iff)
  then have ll: "length l = length fvnames" by (simp add: list_all2_lengthD)
  have pos: "l ! j < length vnames \<and> vnames ! (l ! j) = fvnames ! j" if "j < length fvnames" for j
    using list_index_Inr [OF list_all2_nthD [OF all2 that]] by simp
  have inb: "\<forall>i \<in> set l. i < length vals"
    using pos ll len by (auto simp: in_set_conv_nth)
  have "map_of (zip vnames vals) (fvnames ! j) = Some (vals ! (l ! j))" if "j < length fvnames" for j
    using map_of_zip_nth [OF len [symmetric] dist, of "l ! j"] pos [OF that] len by simp
  then have "map Some (map (\<lambda>i. vals ! i) l) = map (map_of (zip vnames vals)) fvnames"
    by (auto simp: list_eq_iff_nth_eq ll)
  with inb m show ?thesis by (simp add: is_local_vector_def)
qed

lemma initialized_inv_mappings:
  assumes inv: "initialized_inv s" and fi: "fi < n_functions s"
  shows "length (func_vars_int s) = n_functions s"
    and "length (func_vars_float s) = n_functions s"
    and "length (sizes s) = n_functions s"
    and "sizes s ! fi = sub_n_components (functions_fl s ! fi)"
    and "mapping_ok (vnamesi s) (sub_var_names_int (functions_fl s ! fi)) (func_vars_int s ! fi)"
    and "mapping_ok (vnamesf s) (sub_var_names_float (functions_fl s ! fi)) (func_vars_float s ! fi)"
    and "distinct (vnamesi s)" and "distinct (vnamesf s)"
proof -
  from inv have sz: "sizes s = map sub_n_components (functions_fl s)"
    and ai: "list_all2 (\<lambda>f m. mapping_ok (vnamesi s) (sub_var_names_int f) m)
       (functions_fl s) (func_vars_int s)"
    and af: "list_all2 (\<lambda>f m. mapping_ok (vnamesf s) (sub_var_names_float f) m)
       (functions_fl s) (func_vars_float s)"
    and vi: "vnamesi s = dict_fromkeys (concat (map sub_var_names_int (functions_fl s)))"
    and vf: "vnamesf s = dict_fromkeys (concat (map sub_var_names_float (functions_fl s)))"
    unfolding initialized_inv_def by blast+
  have di: "distinct (vnamesi s)" and df: "distinct (vnamesf s)"
    by (simp_all add: vi vf dict_fromkeys_dedup)
  from fi have fi': "fi < length (functions_fl s)" by (simp add: n_functions_def)
  show "length (func_vars_int s) = n_functions s"
    using list_all2_lengthD [OF ai] by (simp add: n_functions_def)
  show "length (func_vars_float s) = n_functions s"
    using list_all2_lengthD [OF af] by (simp add: n_functions_def)
  show "length (sizes s) = n_functions s" by (simp add: sz n_functions_def)
  show "sizes s ! fi = sub_n_components (functions_fl s ! fi)" using fi' by (simp add: sz)
  show "mapping_ok (vnamesi s) (sub_var_names_int (functions_fl s ! fi)) (func_vars_int s ! fi)"
    by (rule list_all2_nthD [OF ai fi'])
  show "mapping_ok (vnamesf s) (sub_var_names_float (functions_fl s ! fi)) (func_vars_float s ! fi)"
    by (rule list_all2_nthD [OF af fi'])
  show "distinct (vnamesi s)" by (rule di)
  show "distinct (vnamesf s)" by (rule df)
qed

text \<open>
  C3: for an initialized composer, any of its sub-functions and any registry-ordered
  vectors of variable values, applying the stored index mappings to the vectors succeeds
  and yields the sub-function's local variable vectors, in the sub-function's own declared
  order. In the composer of three sub-functions with float registry \<open>[x, y, z]\<close> and
  values \<open>[10, 20, 30]\<close>, the sub-function declaring \<open>[x, z]\<close> gets \<open>[10, 30]\<close> and the
  one declaring \<open>[y]\<close> gets \<open>[20]\<close>.
\<close>

theorem local_slice_declared_order:
  assumes "initialize s0 = Inr s" and "fi < n_functions s"
    and "length vars_int = length (vnamesi s)"
    and "length vars_float = length (vnamesf s)"
  shows "\<exists>varsi varsf.
      take_index vars_int (func_vars_int s ! fi) = Inr varsi
    \<and> take_index vars_float (func_vars_float s ! fi) = Inr varsf
    \<and> is_local_vector (vnamesi s) vars_int (sub_var_names_int (functions_fl s ! fi)) varsi
    \<and> is_local_vector (vnamesf s) vars_float (sub_var_names_float (functions_fl s ! fi)) varsf"
proof -
  from initialize_Inr(2) [OF assms(1)] have inv: "initialized_inv s" .
  note m = initialized_inv_mappings [OF inv assms(2)]
  from mapping_ok_take_index [OF m(5) assms(3) m(7)] mapping_ok_take_index [OF m(6) assms(4) m(8)]
  show ?thesis by blast
qed

theorem local_slice_declared_order_witness:
  "initialize ex_new = Inr ex_ready \<and> 1 < n_functions ex_ready \<and> 2 < n_functions ex_ready
   \<and> vnamesf ex_ready = [''x'', ''y'', ''z'']
   \<and> sub_var_names_float (functions_fl ex_ready ! 1) = [''x'', ''z'']
   \<and> sub_var_names_float (functions_fl ex_ready ! 2) = [''y'']
   \<and> take_index [Num 10, Num 20, Num 30] (func_vars_float ex_ready ! 1) = Inr [Num 10, Num 30]
   \<and> is_local_vector (vnamesf ex_ready) [Num 10, Num 20, Num 30] [''x'', ''z''] [Num 10, Num 30]
   \<and> take_index [Num 10, Num 20, Num 30] (func_vars_float ex_ready ! 2) = Inr [Num 20]
   \<and> is_local_vector (vnamesf ex_ready) [Num 10, Num 20, Num 30] [''y''] [Num 20]"
proof -
  have n: "1 < n_functions ex_ready" "2 < n_functions ex_ready"
    and li: "length [7::int] = length (vnamesi ex_ready)"
    and lf: "length [Num 10, Num 20, Num 30] = length (vnamesf ex_ready)"
    and r: "vnamesf ex_ready = [''x'', ''y'', ''z'']"
    and d: "sub_var_names_float (functions_fl ex_ready ! 1) = [''x'', ''z'']"
           "sub_var_names_float (functions_fl ex_ready ! 2) = [''y'']"
    and t: "take_index [Num 10, Num 20, Num 30] (func_vars_float ex_ready ! 1) = Inr [Num 10, Num 30]"
           "take_index [Num 10, Num 20, Num 30] (func_vars_float ex_ready ! 2) = Inr [Num 20]"
    by (simp_all add: ex_ready_def n_functions_def ex_A_def ex_B_def)
  from local_slice_declared_order [OF ex_initialize n(1) li lf] t(1) d(1)
  have a: "is_local_vector (vnamesf ex_ready) [Num 10, Num 20, Num 30] [''x'', ''z''] [Num 10, Num 30]"
    by auto
  from local_slice_declared_order [OF ex_initialize n(2) li lf] t(2) d(2)
  have b: "is_local_vector (vnamesf ex_ready) [Num 10, Num 20, Num 30] [''y''] [Num 20]"
    by auto
  from ex_initialize n r d t a b show ?thesis by simp
qed

section \<open>Splitting by the ledger\<close>

lemma length_ledger_ranges [simp]: "length (ledger_ranges ns i0) = length ns"
  by (induction ns arbitrary: i0) simp_all

lemma ledger_ranges_nth:
  "fi < length ns \<Longrightarrow>
   ledger_ranges ns i0 ! fi = (i0 + sum_list (take fi ns), i0 + sum_list (take (Suc fi) ns))"
proof (induction ns arbitrary: i0 fi)
  case Nil
  then show ?case by simp
next
  case (Cons n ns)
  show ?case
  proof (cases fi)
    case 0
    then show ?thesis by simp
  next
    case (Suc k)
    with Cons.prems have "k < length ns" by simp
    from Cons.IH [OF this, of "i0 + n"] Suc show ?thesis by (simp add: add.assoc)
  qed
qed

lemma list_get_nth: "i < length xs \<Longrightarrow> list_get xs i = Inr (xs ! i)"
  by (simp add: list_get_def)

lemma split_individual_loop_eq:
  "k + length ns = length sz \<Longrightarrow> drop k sz = ns \<Longrightarrow>
   split_individual_loop sz data [k..<length sz] i0 out
     = Inr (out @ map (\<lambda>(a, b). np_slice data a b) (ledger_ranges ns i0))"
proof (induction ns arbitrary: k i0 out)
  case Nil
  then show ?case by simp
next
  case (Cons n ns)
  from Cons.prems have k: "k < length sz" by simp
  with Cons.prems(2) have n: "sz ! k = n" and rest: "drop (Suc k) sz = ns"
    by (simp_all add: Cons_nth_drop_Suc [symmetric])
  from Cons.prems(1) have len: "Suc k + length ns = length sz" by simp
  have "split_individual_loop sz data [k..<length sz] i0 out
      = split_individual_loop sz data [Suc k..<length sz] (i0 + n)
          (out @ [np_slice data i0 (i0 + n)])"
    using k n by (simp add: upt_conv_Cons list_get_nth Let_def)
  also have "\<dots> = Inr ((out @ [np_slice data i0 (i0 + n)])
      @ map (\<lambda>(a, b). np_slice data a b) (ledger_ranges ns (i0 + n)))"
    by (rule Cons.IH [OF len rest])
  finally show ?case by simp
qed

lemma split_population_loop_eq:
  "k + length ns = length sz \<Longrightarrow> drop k sz = ns \<Longrightarrow>
   split_population_loop sz data [k..<length sz] i0 out
     = Inr (out @ map (\<lambda>(a, b). map (\<lambda>row. np_slice row a b) data) (ledger_ranges ns i0))"
proof (induction ns arbitrary: k i0 out)
  case Nil
  then show ?case by simp
next
  case (Cons n ns)
  from Cons.prems have k: "k < length sz" by simp
  with Cons.prems(2) have n: "sz ! k = n" and rest: "drop (Suc k) sz = ns"
    by (simp_all add: Cons_nth_drop_Suc [symmetric])
  from Cons.prems(1) have len: "Suc k + length ns = length sz" by simp
  have "split_population_loop sz data [k..<length sz] i0 out
      = split_population_loop sz data [Suc k..<length sz] (i0 + n)
          (out @ [map (\<lambda>row. np_slice row i0 (i0 + n)) data])"
    using k n by (simp add: upt_conv_Cons list_get_nth Let_def)
  also have "\<dots> = Inr ((out @ [map (\<lambda>row. np_slice row i0 (i0 + n)) data])
      @ map (\<lambda>(a, b). map (\<lambda>row. np_slice row a b) data) (ledger_ranges ns (i0 + n)))"
    by (rule Cons.IH [OF len rest])
  finally show ?case by simp
qed

lemma concat_ledger_slices:
  "concat (map (\<lambda>(a, b). np_slice d a b) (ledger_ranges ns i0)) = np_slice d i0 (i0 + sum_list ns)"
proof (induction ns arbitrary: i0)
  case Nil
  show ?case by (simp add: np_slice_def)
next
  case (Cons n ns)
  have "take n (drop i0 d) @ take (sum_list ns) (drop (i0 + n) d) = take (n + sum_list ns) (drop i0 d)"
    by (simp add: take_add add.commute)
  with Cons.IH [of "i0 + n"] show ?case by (simp add: np_slice_def)
qed

lemma np_slice_all: "length d = n \<Longrightarrow> np_slice d 0 n = d"
  by (simp add: np_slice_def)

lemma length_np_slice: "b \<le> length d \<Longrightarrow> length (np_slice d a b) = b - a"
  by (simp add: np_slice_def)

lemma sum_list_take_le: "sum_list (take k (ns::nat list)) \<le> sum_list ns"
  by (metis append_take_drop_id le_add1 sum_list_append)

lemma sum_list_take_Suc:
  "k < length (ns::nat list) \<Longrightarrow> sum_list (take (Suc k) ns) = sum_list (take k ns) + ns ! k"
  by (simp add: take_Suc_conv_app_nth)


text \<open>
  C5: for an initialized composer and a flat vector \<open>d\<close> of length \<open>n_components()\<close>,
  \<open>split_individual\<close> returns one piece per sub-function, the pieces concatenated in order
  are \<open>d\<close> again, piece \<open>fi\<close> is the contiguous range of \<open>d\<close> between the cumulative
  ledger offsets \<open>fi\<close> and \<open>fi + 1\<close> (so the ranges are disjoint) and has the declared
  component count of sub-function \<open>fi\<close>. The same holds for \<open>split_population\<close> along
  the second axis of an array whose rows all have length \<open>n_components()\<close>.
\<close>

theorem split_round_trip:
  assumes init: "initialize s0 = Inr s"
    and d: "length (d :: 'a list) = n_components s"
    and rows: "\<forall>row \<in> set (data :: 'a list list). length row = n_components s"
  shows "(\<exists>pieces. split_individual s d = Inr pieces \<and> concat pieces = d
            \<and> length pieces = n_functions s
            \<and> (\<forall>fi < n_functions s.
                  pieces ! fi = np_slice d (offset (sizes s) fi) (offset (sizes s) (Suc fi))
                \<and> length (pieces ! fi) = sub_n_components (functions_fl s ! fi)))
       \<and> (\<exists>pieces. split_population s data = Inr pieces
            \<and> concat_axis1 (length data) pieces = data
            \<and> length pieces = n_functions s
            \<and> (\<forall>fi < n_functions s.
                  pieces ! fi = map (\<lambda>row. np_slice row (offset (sizes s) fi)
                                    (offset (sizes s) (Suc fi))) data
                \<and> (\<forall>piece_row \<in> set (pieces ! fi).
                      length piece_row = sub_n_components (functions_fl s ! fi))))"
proof -
  let ?sz = "sizes s"
  let ?rs = "ledger_ranges ?sz 0"
  from initialize_Inr(2) [OF init] have inv: "initialized_inv s" .
  then have sz: "?sz = map sub_n_components (functions_fl s)"
    by (simp add: initialized_inv_def)
  then have n: "n_functions s = length ?sz" by (simp add: n_functions_def)
  have rng: "?rs ! fi = (offset ?sz fi, offset ?sz (Suc fi))" if "fi < n_functions s" for fi
    using ledger_ranges_nth [of fi ?sz 0] that n by (simp add: offset_def)
  have off_le: "offset ?sz (Suc fi) \<le> n_components s" for fi
    unfolding offset_def n_components_def by (rule sum_list_take_le)
  have off_diff: "offset ?sz (Suc fi) - offset ?sz fi = sub_n_components (functions_fl s ! fi)"
    if "fi < n_functions s" for fi
    using that n sum_list_take_Suc [of fi ?sz] by (simp add: offset_def sz)
  have slice_len: "length (np_slice row (offset ?sz fi) (offset ?sz (Suc fi)))
        = sub_n_components (functions_fl s ! fi)"
    if "fi < n_functions s" "length row = n_components s" for fi and row :: "'a list"
    using length_np_slice [of "offset ?sz (Suc fi)" row "offset ?sz fi"] off_le [of fi]
      off_diff [OF that(1)] that(2) by simp
  let ?p = "map (\<lambda>(a, b). np_slice d a b) ?rs"
  have 1: "split_individual s d = Inr ?p"
    using split_individual_loop_eq [of 0 ?sz ?sz d 0 "[]"]
    by (simp add: split_individual_def n)
  have 2: "concat ?p = d"
    using d by (simp add: concat_ledger_slices np_slice_all n_components_def)
  have 3: "?p ! fi = np_slice d (offset ?sz fi) (offset ?sz (Suc fi))" if "fi < n_functions s" for fi
    using that n rng [OF that] by simp
  have ind: "\<exists>pieces. split_individual s d = Inr pieces \<and> concat pieces = d
            \<and> length pieces = n_functions s
            \<and> (\<forall>fi < n_functions s.
                  pieces ! fi = np_slice d (offset (sizes s) fi) (offset (sizes s) (Suc fi))
                \<and> length (pieces ! fi) = sub_n_components (functions_fl s ! fi))"
  proof (intro exI [of _ ?p] conjI allI impI)
    show "split_individual s d = Inr ?p" by (rule 1)
    show "concat ?p = d" by (rule 2)
    show "length ?p = n_functions s" by (simp add: n)
    fix fi assume fi: "fi < n_functions s"
    show "?p ! fi = np_slice d (offset ?sz fi) (offset ?sz (Suc fi))" by (rule 3 [OF fi])
    show "length (?p ! fi) = sub_n_components (functions_fl s ! fi)"
      unfolding 3 [OF fi] by (rule slice_len [OF fi d])
  qed
  let ?q = "map (\<lambda>(a, b). map (\<lambda>row. np_slice row a b) data) ?rs"
  have 4: "split_population s data = Inr ?q"
    using split_population_loop_eq [of 0 ?sz ?sz data 0 "[]"]
    by (simp add: split_population_def n)
  have "concat (map (\<lambda>p. p ! r) ?q) = data ! r" if r: "r < length data" for r
  proof -
    have eq: "map (\<lambda>p. p ! r) ?q = map (\<lambda>(a, b). np_slice (data ! r) a b) ?rs"
      using r by (simp add: comp_def case_prod_beta)
    have len: "length (data ! r) = sum_list ?sz"
      using rows r by (simp add: n_components_def)
    have "concat (map (\<lambda>p. p ! r) ?q) = concat (map (\<lambda>(a, b). np_slice (data ! r) a b) ?rs)"
      by (simp only: eq)
    also have "\<dots> = np_slice (data ! r) 0 (0 + sum_list ?sz)"
      by (rule concat_ledger_slices)
    also have "\<dots> = data ! r"
      using len by (simp add: np_slice_all)
    finally show ?thesis .
  qed
  then have 5: "concat_axis1 (length data) ?q = data"
    by (intro nth_equalityI) (simp_all add: concat_axis1_def)
  have 6: "?q ! fi = map (\<lambda>row. np_slice row (offset ?sz fi) (offset ?sz (Suc fi))) data"
    if "fi < n_functions s" for fi
    using that n rng [OF that] by simp
  have 7: "\<forall>piece_row \<in> set (?q ! fi). length piece_row = sub_n_components (functions_fl s ! fi)"
    if "fi < n_functions s" for fi
    using slice_len [OF that] rows by (auto simp: 6 [OF that])
  have pop: "\<exists>pieces. split_population s data = Inr pieces
            \<and> concat_axis1 (length data) pieces = data
            \<and> length pieces = n_functions s
            \<and> (\<forall>fi < n_functions s.
                  pieces ! fi = map (\<lambda>row. np_slice row (offset (sizes s) fi)
                                    (offset (sizes s) (Suc fi))) data
                \<and> (\<forall>piece_row \<in> set (pieces ! fi).
                      length piece_row = sub_n_components (functions_fl s ! fi)))"
  proof (intro exI [of _ ?q] conjI allI impI)
    show "split_population s data = Inr ?q" by (rule 4)
    show "concat_axis1 (length data) ?q = data" by (rule 5)
    show "length ?q = n_functions s" by (simp add: n)
    fix fi assume fi: "fi < n_functions s"
    show "?q ! fi = map (\<lambda>row. np_slice row (offset ?sz fi) (offset ?sz (Suc fi))) data"
      by (rule 6 [OF fi])
    show "\<forall>piece_row \<in> set (?q ! fi). length piece_row = sub_n_components (functions_fl s ! fi)"
      by (rule 7 [OF fi])
  qed
  from ind pop show ?thesis by (rule conjI)
qed

theorem split_round_trip_witness:
  "initialize ex_new = Inr ex_ready \<and> n_components ex_ready = 5
   \<and> split_individual ex_ready [1, 2, 3, 4, 5 :: nat] = Inr [[1], [2, 3], [4, 5]]
   \<and> concat [[1], [2, 3], [4, 5 :: nat]] = [1, 2, 3, 4, 5]
   \<and> split_population ex_ready [[1, 2, 3, 4, 5 :: nat], [6, 7, 8, 9, 10]]
       = Inr [[[1], [6]], [[2, 3], [7, 8]], [[4, 5], [9, 10]]]
   \<and> concat_axis1 2 [[[1], [6]], [[2, 3], [7, 8]], [[4, 5], [9, 10 :: nat]]]
       = [[1, 2, 3, 4, 5], [6, 7, 8, 9, 10]]"
proof -
  have n: "n_components ex_ready = 5"
    by (simp add: n_components_def ex_ready_def)
  have d: "length [1, 2, 3, 4, 5 :: nat] = n_components ex_ready"
    by (simp add: n)
  have rows: "\<forall>row \<in> set [[1, 2, 3, 4, 5 :: nat], [6, 7, 8, 9, 10]]. length row = n_components ex_ready"
    by (simp add: n)
  have si: "split_individual ex_ready [1, 2, 3, 4, 5 :: nat] = Inr [[1], [2, 3], [4, 5]]"
    by (simp add: split_individual_def n_functions_def ex_ready_def list_get_def np_slice_def
        upt_conv_Cons)
  have sp: "split_population ex_ready [[1, 2, 3, 4, 5 :: nat], [6, 7, 8, 9, 10]]
       = Inr [[[1], [6]], [[2, 3], [7, 8]], [[4, 5], [9, 10]]]"
    by (simp add: split_population_def n_functions_def ex_ready_def list_get_def np_slice_def
        upt_conv_Cons)
  have c1: "concat [[1], [2, 3], [4, 5 :: nat]] = [1, 2, 3, 4, 5]"
    by simp
  have c2: "concat_axis1 2 [[[1], [6]], [[2, 3], [7, 8]], [[4, 5], [9, 10 :: nat]]]
       = [[1, 2, 3, 4, 5], [6, 7, 8, 9, 10]]"
    by (simp add: concat_axis1_def upt_conv_Cons)
  show ?thesis
    using split_round_trip [OF ex_initialize d rows]
    by (simp only: ex_initialize n si sp c1 c2 simp_thms)
qed

section \<open>Evaluation of an individual\<close>

lemma set_slice_exact:
  assumes "i0 + length rhs \<le> length a"
  shows "set_slice a i0 (i0 + length rhs) rhs = Inr (take i0 a @ rhs @ drop (i0 + length rhs) a)"
proof -
  from assms have "min i0 (length a) = i0" "min (i0 + length rhs) (length a) = i0 + length rhs"
    by simp_all
  then show ?thesis by (simp add: set_slice_def Let_def)
qed

lemma set_slice_result:
  assumes "i0 + length rhs \<le> length a"
  shows "\<exists>a'. set_slice a i0 (i0 + length rhs) rhs = Inr a' \<and> length a' = length a
           \<and> take (i0 + length rhs) a' = take i0 a @ rhs
           \<and> (\<forall>k. drop (i0 + length rhs + k) a' = drop (i0 + length rhs + k) a)"
proof -
  let ?a' = "take i0 a @ rhs @ drop (i0 + length rhs) a"
  from assms have l: "length (take i0 a) = i0" by simp
  have 1: "take (i0 + length rhs) ?a' = take i0 a @ rhs"
    using l by simp
  have 2: "drop (i0 + length rhs + k) ?a' = drop (i0 + length rhs + k) a" for k
    using l by (simp add: add.commute add.left_commute)
  have 3: "length ?a' = length a" using assms by simp
  from set_slice_exact [OF assms] 1 2 3 show ?thesis by blast
qed

lemma calc_individual_loop_eq:
  assumes "length outs = length rest"
    and "fi + length rest = length (sizes s)"
    and "length (func_vars_int s) = length (sizes s)"
    and "length (func_vars_float s) = length (sizes s)"
    and "\<forall>j < length rest. \<exists>varsi varsf.
           take_index vars_int (func_vars_int s ! (fi + j)) = Inr varsi
         \<and> take_index vars_float (func_vars_float s ! (fi + j)) = Inr varsf
         \<and> sub_calc_individual (rest ! j) varsi varsf pr = Inr (outs ! j)
         \<and> length (outs ! j) = sizes s ! (fi + j)"
    and "i0 + length (concat outs) \<le> length buf"
  shows "calc_individual_loop s vars_int vars_float pr fi rest i0 buf
       = Inr (take i0 buf @ concat outs @ drop (i0 + length (concat outs)) buf)"
  using assms
proof (induction rest arbitrary: fi i0 buf outs)
  case Nil
  then show ?case by simp
next
  case (Cons f rest)
  from Cons.prems(1) obtain out outs' where outs: "outs = out # outs'"
    and len': "length outs' = length rest"
    by (cases outs) auto
  from Cons.prems(2) have fi: "fi < length (sizes s)"
    and fi': "Suc fi + length rest = length (sizes s)" by simp_all
  from Cons.prems(5) [rule_format, of 0] outs obtain varsi varsf where
    ti: "take_index vars_int (func_vars_int s ! fi) = Inr varsi" and
    tf: "take_index vars_float (func_vars_float s ! fi) = Inr varsf" and
    call: "sub_calc_individual f varsi varsf pr = Inr out" and
    n: "sizes s ! fi = length out"
    by auto
  have rest: "\<forall>j < length rest. \<exists>varsi varsf.
           take_index vars_int (func_vars_int s ! (Suc fi + j)) = Inr varsi
         \<and> take_index vars_float (func_vars_float s ! (Suc fi + j)) = Inr varsf
         \<and> sub_calc_individual (rest ! j) varsi varsf pr = Inr (outs' ! j)
         \<and> length (outs' ! j) = sizes s ! (Suc fi + j)"
  proof (intro allI impI)
    fix j assume "j < length rest"
    then have "Suc j < length (f # rest)" by simp
    from Cons.prems(5) [rule_format, OF this] show "\<exists>varsi varsf.
           take_index vars_int (func_vars_int s ! (Suc fi + j)) = Inr varsi
         \<and> take_index vars_float (func_vars_float s ! (Suc fi + j)) = Inr varsf
         \<and> sub_calc_individual (rest ! j) varsi varsf pr = Inr (outs' ! j)
         \<and> length (outs' ! j) = sizes s ! (Suc fi + j)"
      by (simp add: outs)
  qed
  from Cons.prems(6) have room: "i0 + length out \<le> length buf"
    by (simp add: outs)
  from set_slice_result [OF room] obtain buf' where
    ss: "set_slice buf i0 (i0 + length out) out = Inr buf'" and
    lv: "length buf' = length buf" and
    tk: "take (i0 + length out) buf' = take i0 buf @ out" and
    dr: "\<And>k. drop (i0 + length out + k) buf' = drop (i0 + length out + k) buf"
    by blast
  from Cons.prems(6) have room': "(i0 + length out) + length (concat outs') \<le> length buf'"
    by (simp add: outs lv)
  have step: "calc_individual_loop s vars_int vars_float pr fi (f # rest) i0 buf
      = calc_individual_loop s vars_int vars_float pr (Suc fi) rest (i0 + length out) buf'"
    using fi Cons.prems(3,4) ti tf call ss
    by (simp add: list_get_nth n Let_def)
  also have "\<dots> = Inr (take (i0 + length out) buf' @ concat outs'
      @ drop ((i0 + length out) + length (concat outs')) buf')"
    by (rule Cons.IH [OF len' fi' Cons.prems(3,4) rest room'])
  also have "\<dots> = Inr (take i0 buf @ concat outs @ drop (i0 + length (concat outs)) buf)"
    using dr [of "length (concat outs')"] by (simp add: tk outs add.assoc)
  finally show ?case .
qed

lemma concat_nth_offset:
  "fi < length outs \<Longrightarrow> k < length (outs ! fi) \<Longrightarrow>
   concat outs ! (sum_list (take fi (map length outs)) + k) = outs ! fi ! k"
proof (induction outs arbitrary: fi)
  case Nil
  then show ?case by simp
next
  case (Cons out outs)
  show ?case
  proof (cases fi)
    case 0
    with Cons.prems show ?thesis by (simp add: nth_append)
  next
    case (Suc m)
    with Cons.prems have "m < length outs" "k < length (outs ! m)" by simp_all
    from Cons.IH [OF this] Suc show ?thesis by (simp add: nth_append)
  qed
qed


lemma is_local_vector_unique:
  "is_local_vector registry vals declared a \<Longrightarrow> is_local_vector registry vals declared b \<Longrightarrow> a = b"
proof -
  assume "is_local_vector registry vals declared a" "is_local_vector registry vals declared b"
  then have "map Some a = map Some b" by (simp add: is_local_vector_def)
  then show "a = b" by (simp add: inj_map_eq_map)
qed

text \<open>
  C4: for an initialized composer and registry-ordered variable vectors, let every
  sub-function, invoked on its own local variable vectors, return a vector of its declared
  component count. Then \<open>calc_individual\<close> returns the concatenation of these outputs in
  registration order; the result has length \<open>n_components()\<close>, and the output of
  sub-function \<open>fi\<close> occupies exactly the entries from its ledger offset on, up to the
  offset of the next sub-function: the ranges written follow one another without overlap,
  and every entry is written once.
\<close>

theorem calc_individual_concatenates:
  assumes init: "initialize s0 = Inr s"
    and li: "length vars_int = length (vnamesi s)"
    and lf: "length vars_float = length (vnamesf s)"
    and outs: "list_all2 (\<lambda>f out. \<exists>varsi varsf.
           is_local_vector (vnamesi s) vars_int (sub_var_names_int f) varsi
         \<and> is_local_vector (vnamesf s) vars_float (sub_var_names_float f) varsf
         \<and> sub_calc_individual f varsi varsf pr = Inr out
         \<and> length out = sub_n_components f) (functions_fl s) outs"
  shows "calc_individual s vars_int vars_float pr = Inr (concat outs)
       \<and> length (concat outs) = n_components s
       \<and> (\<forall>fi < n_functions s. \<forall>k < sizes s ! fi.
             concat outs ! (offset (sizes s) fi + k) = outs ! fi ! k)
       \<and> (\<forall>fi < n_functions s.
             length (outs ! fi) = sizes s ! fi
           \<and> offset (sizes s) (Suc fi) = offset (sizes s) fi + sizes s ! fi)"
proof -
  let ?fs = "functions_fl s"
  from initialize_Inr(2) [OF init] have inv: "initialized_inv s" .
  from outs have lo: "length outs = length ?fs" by (simp add: list_all2_lengthD)
  have nf: "n_functions s = length ?fs" by (simp add: n_functions_def)
  have sub: "\<exists>varsi varsf.
           take_index vars_int (func_vars_int s ! j) = Inr varsi
         \<and> take_index vars_float (func_vars_float s ! j) = Inr varsf
         \<and> sub_calc_individual (?fs ! j) varsi varsf pr = Inr (outs ! j)
         \<and> length (outs ! j) = sizes s ! j" if j: "j < length ?fs" for j
  proof -
    from j have j': "j < n_functions s" by (simp add: nf)
    note m = initialized_inv_mappings [OF inv j']
    from list_all2_nthD [OF outs j] obtain varsi varsf where
      vi: "is_local_vector (vnamesi s) vars_int (sub_var_names_int (?fs ! j)) varsi" and
      vf: "is_local_vector (vnamesf s) vars_float (sub_var_names_float (?fs ! j)) varsf" and
      call: "sub_calc_individual (?fs ! j) varsi varsf pr = Inr (outs ! j)" and
      len: "length (outs ! j) = sub_n_components (?fs ! j)"
      by blast
    from mapping_ok_take_index [OF m(5) li m(7)] obtain loci where
      ti: "take_index vars_int (func_vars_int s ! j) = Inr loci" and
      "is_local_vector (vnamesi s) vars_int (sub_var_names_int (?fs ! j)) loci"
      by blast
    with vi have ei: "loci = varsi" by (blast intro: is_local_vector_unique)
    from mapping_ok_take_index [OF m(6) lf m(8)] obtain locf where
      tf: "take_index vars_float (func_vars_float s ! j) = Inr locf" and
      "is_local_vector (vnamesf s) vars_float (sub_var_names_float (?fs ! j)) locf"
      by blast
    with vf have ef: "locf = varsf" by (blast intro: is_local_vector_unique)
    from ti tf call len m(4) ei ef show ?thesis by simp
  qed
  have lens: "map length outs = sizes s"
  proof (rule nth_equalityI)
    show "length (map length outs) = length (sizes s)"
      using inv lo by (simp add: initialized_inv_def)
    fix j assume "j < length (map length outs)"
    then have "j < length ?fs" by (simp add: lo)
    from sub [OF this] this lo show "map length outs ! j = sizes s ! j" by auto
  qed
  then have total: "length (concat outs) = n_components s"
    by (simp add: length_concat n_components_def)
  have ls: "length (sizes s) = length ?fs"
    using lens lo by (metis length_map)
  have lfi: "length (func_vars_int s) = length (sizes s)"
    and lff: "length (func_vars_float s) = length (sizes s)"
    using inv ls by (auto simp: initialized_inv_def dest: list_all2_lengthD)
  have "calc_individual_loop s vars_int vars_float pr 0 ?fs 0 (replicate (n_components s) NaN)
      = Inr (take 0 (replicate (n_components s) NaN) @ concat outs
          @ drop (0 + length (concat outs)) (replicate (n_components s) NaN))"
  proof (rule calc_individual_loop_eq [OF lo _ lfi lff])
    show "0 + length ?fs = length (sizes s)" by (simp add: ls)
    show "\<forall>j < length ?fs. \<exists>varsi varsf.
           take_index vars_int (func_vars_int s ! (0 + j)) = Inr varsi
         \<and> take_index vars_float (func_vars_float s ! (0 + j)) = Inr varsf
         \<and> sub_calc_individual (?fs ! j) varsi varsf pr = Inr (outs ! j)
         \<and> length (outs ! j) = sizes s ! (0 + j)"
      using sub by simp
    show "0 + length (concat outs) \<le> length (replicate (n_components s) NaN)"
      by (simp add: total)
  qed
  then have 1: "calc_individual s vars_int vars_float pr = Inr (concat outs)"
    by (simp add: calc_individual_def total)
  have 3: "\<forall>fi < n_functions s. \<forall>k < sizes s ! fi.
             concat outs ! (offset (sizes s) fi + k) = outs ! fi ! k"
  proof (intro allI impI)
    fix fi k assume fi: "fi < n_functions s" and k: "k < sizes s ! fi"
    from fi have a: "fi < length outs" by (simp add: nf lo)
    with k lens have b: "k < length (outs ! fi)" by (metis nth_map)
    from concat_nth_offset [OF a b] show "concat outs ! (offset (sizes s) fi + k) = outs ! fi ! k"
      by (simp add: lens offset_def)
  qed
  have 4: "\<forall>fi < n_functions s.
             length (outs ! fi) = sizes s ! fi
           \<and> offset (sizes s) (Suc fi) = offset (sizes s) fi + sizes s ! fi"
  proof (intro allI impI)
    fix fi assume fi: "fi < n_functions s"
    then have a: "fi < length ?fs" and b: "fi < length (sizes s)" by (simp_all add: nf ls)
    from sub [OF a] sum_list_take_Suc [OF b]
    show "length (outs ! fi) = sizes s ! fi
        \<and> offset (sizes s) (Suc fi) = offset (sizes s) fi + sizes s ! fi"
      by (auto simp: offset_def)
  qed
  from 1 total 3 4 show ?thesis by blast
qed

theorem calc_individual_concatenates_witness:
  "initialize ex_new = Inr ex_ready
   \<and> calc_individual ex_ready [7] [Num 10, Num 20, Num 30] ()
       = Inr (concat [[Num 10], [Num 10, Num 30], [Num 20, Num 20]])
   \<and> sub_calc_individual (ex_C True) [] [Num 10, Num 20] () = Inr [Num 10]
   \<and> sub_calc_individual (ex_A True) [7] [Num 10, Num 30] () = Inr [Num 10, Num 30]
   \<and> sub_calc_individual (ex_B True) [] [Num 20] () = Inr [Num 20, Num 20]"
proof -
  let ?vi = "[7::int]" and ?vf = "[Num 10, Num 20, Num 30]"
  have li: "length ?vi = length (vnamesi ex_ready)" and lf: "length ?vf = length (vnamesf ex_ready)"
    by (simp_all add: ex_ready_def)
  have c: "sub_calc_individual (ex_C True) [] [Num 10, Num 20] () = Inr [Num 10]"
    and a: "sub_calc_individual (ex_A True) [7] [Num 10, Num 30] () = Inr [Num 10, Num 30]"
    and b: "sub_calc_individual (ex_B True) [] [Num 20] () = Inr [Num 20, Num 20]"
    by (simp_all add: ex_C_def ex_A_def ex_B_def)
  have lc: "is_local_vector (vnamesi ex_ready) ?vi (sub_var_names_int (ex_C True)) []"
      "is_local_vector (vnamesf ex_ready) ?vf (sub_var_names_float (ex_C True)) [Num 10, Num 20]"
    and la: "is_local_vector (vnamesi ex_ready) ?vi (sub_var_names_int (ex_A True)) [7]"
      "is_local_vector (vnamesf ex_ready) ?vf (sub_var_names_float (ex_A True)) [Num 10, Num 30]"
    and lb: "is_local_vector (vnamesi ex_ready) ?vi (sub_var_names_int (ex_B True)) []"
      "is_local_vector (vnamesf ex_ready) ?vf (sub_var_names_float (ex_B True)) [Num 20]"
    by (simp_all add: is_local_vector_def ex_ready_def ex_C_def ex_A_def ex_B_def)
  have n: "sub_n_components (ex_C True) = 1" "sub_n_components (ex_A True) = 2"
      "sub_n_components (ex_B True) = 2"
    by (simp_all add: ex_C_def ex_A_def ex_B_def)
  have fs: "functions_fl ex_ready = [ex_C True, ex_A True, ex_B True]"
    by (simp add: ex_ready_def)
  have outs: "list_all2 (\<lambda>f out. \<exists>varsi varsf.
           is_local_vector (vnamesi ex_ready) ?vi (sub_var_names_int f) varsi
         \<and> is_local_vector (vnamesf ex_ready) ?vf (sub_var_names_float f) varsf
         \<and> sub_calc_individual f varsi varsf () = Inr out
         \<and> length out = sub_n_components f) (functions_fl ex_ready)
         [[Num 10], [Num 10, Num 30], [Num 20, Num 20]]"
    unfolding fs list_all2_Cons list_all2_Nil
    using c a b lc la lb n by (intro conjI exI) simp_all
  from calc_individual_concatenates [OF ex_initialize li lf outs] ex_initialize c a b
  show ?thesis by blast
qed

section \<open>Derivative composition\<close>

lemma cmpnts_loop_eq:
  "cmpnts_loop ns components i0 acc
     = acc @ map (\<lambda>(a, b). case components of
                      None \<Rightarrow> map int [a..<b]
                    | Some cs \<Rightarrow> filter (\<lambda>c. int a \<le> c \<and> c < int b) cs)
               (ledger_ranges ns i0)"
  by (induction ns arbitrary: i0 acc) (simp_all add: Let_def)

lemma cmpnts_loop_requested:
  "cmpnts_loop sz components 0 [] = map (requested sz components) [0..<length sz]"
proof (rule nth_equalityI)
  show "length (cmpnts_loop sz components 0 []) = length (map (requested sz components) [0..<length sz])"
    by (simp add: cmpnts_loop_eq)
  fix fi assume "fi < length (cmpnts_loop sz components 0 [])"
  then have fi: "fi < length sz" by (simp add: cmpnts_loop_eq)
  then show "cmpnts_loop sz components 0 [] ! fi = map (requested sz components) [0..<length sz] ! fi"
    using ledger_ranges_nth [OF fi, of 0]
    by (cases components) (simp_all add: cmpnts_loop_eq requested_def offset_def)
qed

lemma set_slice_pre:
  assumes "length pre = c0" "length b \<le> m"
  shows "set_slice (pre @ replicate m x) c0 (c0 + length b) b
       = Inr ((pre @ b) @ replicate (m - length b) x)"
proof -
  from assms have "c0 + length b \<le> length (pre @ replicate m x)" by simp
  from set_slice_exact [OF this] assms show ?thesis by simp
qed

lemma ana_deriv_loop_step:
  assumes fi: "fi < length (sizes s)"
    and lc: "length cmpnts = length (sizes s)"
    and li: "length (func_vars_int s) = length (sizes s)"
    and lf: "length (func_vars_float s) = length (sizes s)"
    and pos: "\<exists>l. func_vars_float s ! fi = Positions l"
    and blk: "if cmpnts ! fi \<noteq> [] \<and> depends_on s var fi
              then delegate s vars_int vars_float var fi f (cmpnts ! fi) = Inr b
                 \<and> length b = length (cmpnts ! fi)
              else b = replicate (length (cmpnts ! fi)) NaN"
    and pre: "length pre = c0" and m: "length b \<le> m"
  shows "ana_deriv_loop s vars_int vars_float var cmpnts fi (f # rest) i0 c0 (pre @ replicate m NaN)
       = ana_deriv_loop s vars_int vars_float var cmpnts (Suc fi) rest (i0 + sizes s ! fi)
           (c0 + length b) ((pre @ b) @ replicate (m - length b) NaN)"
proof -
  from pos obtain l where l: "func_vars_float s ! fi = Positions l" by blast
  have g1: "list_get (sizes s) fi = Inr (sizes s ! fi)"
    and g2: "list_get cmpnts fi = Inr (cmpnts ! fi)"
    and g3: "list_get (func_vars_float s) fi = Inr (Positions l)"
    and g4: "list_get (func_vars_int s) fi = Inr (func_vars_int s ! fi)"
    using fi lc li lf l by (simp_all add: list_get_nth)
  have dep: "depends_on s var fi \<longleftrightarrow> var \<in> set (map int l)"
    by (simp add: depends_on_def l)
  show ?thesis
  proof (cases "cmpnts ! fi \<noteq> [] \<and> depends_on s var fi")
    case True
    with blk have d: "delegate s vars_int vars_float var fi f (cmpnts ! fi) = Inr b"
      and lb: "length b = length (cmpnts ! fi)" by simp_all
    from d obtain varsi varsf vi where
      ti: "take_index vars_int (func_vars_int s ! fi) = Inr varsi" and
      tf: "take_index vars_float (Positions l) = Inr varsf" and
      ix: "list_index (map int l) var = Inr vi" and
      call: "sub_ana_deriv f varsi varsf vi (cmpnts ! fi) = Inr b"
      unfolding delegate_def l by (auto simp: ebind_eq_Inr)
    from True have c: "c0 < c0 + length (cmpnts ! fi)" and v: "var \<in> int ` set l"
      by (simp_all add: dep)
    have ss: "set_slice (pre @ replicate m NaN) c0 (c0 + length (cmpnts ! fi)) b
        = Inr ((pre @ b) @ replicate (m - length b) NaN)"
      using set_slice_pre [OF pre m] by (simp add: lb)
    have e: "c0 + length b = c0 + length (cmpnts ! fi)" by (simp add: lb)
    show ?thesis
      unfolding e
      by (subst ana_deriv_loop.simps)
        (simp only: g1 g2 g3 g4 ebind_Inr Let_def c if_True list_of_index.simps set_map v
          ti tf ix call ss)
  next
    case False
    with blk have b: "b = replicate (length (cmpnts ! fi)) NaN" by simp
    from m have split: "pre @ replicate m NaN = (pre @ b) @ replicate (m - length b) NaN"
      by (simp add: b replicate_add [symmetric])
    have lb: "length b = length (cmpnts ! fi)" by (simp add: b)
    have nodep: "(if c0 < c0 + length (cmpnts ! fi)
              then ebind (list_get (func_vars_float s) fi) (\<lambda>mf.
                   ebind (list_of_index mf) (\<lambda>l. Inr (var \<in> set (map int l))))
              else Inr False) = (Inr False :: py_error + bool)"
      using False by (auto simp: g3 dep)
    have e: "c0 + length b = c0 + length (cmpnts ! fi)" by (simp add: lb)
    show ?thesis
      unfolding split [symmetric] e
      by (subst ana_deriv_loop.simps) (simp only: g1 g2 ebind_Inr Let_def nodep if_False)
  qed
qed


lemma ana_deriv_loop_eq:
  assumes "length blocks = length rest"
    and "fi + length rest = length (sizes s)"
    and "length cmpnts = length (sizes s)"
    and "length (func_vars_int s) = length (sizes s)"
    and "length (func_vars_float s) = length (sizes s)"
    and "\<forall>k < length (sizes s). \<exists>l. func_vars_float s ! k = Positions l"
    and "\<forall>j < length rest.
           if cmpnts ! (fi + j) \<noteq> [] \<and> depends_on s var (fi + j)
           then delegate s vars_int vars_float var (fi + j) (rest ! j) (cmpnts ! (fi + j))
                  = Inr (blocks ! j)
              \<and> length (blocks ! j) = length (cmpnts ! (fi + j))
           else blocks ! j = replicate (length (cmpnts ! (fi + j))) NaN"
    and "length pre = c0"
    and "length (concat blocks) \<le> m"
  shows "ana_deriv_loop s vars_int vars_float var cmpnts fi rest i0 c0 (pre @ replicate m NaN)
       = Inr (pre @ concat blocks @ replicate (m - length (concat blocks)) NaN)"
  using assms
proof (induction rest arbitrary: fi i0 c0 pre m blocks)
  case Nil
  then show ?case by simp
next
  case (Cons f rest)
  from Cons.prems(1) obtain b bs where blocks: "blocks = b # bs"
    and lbs: "length bs = length rest"
    by (cases blocks) auto
  from Cons.prems(2) have fi: "fi < length (sizes s)"
    and fi': "Suc fi + length rest = length (sizes s)" by simp_all
  from Cons.prems(6) fi have pos: "\<exists>l. func_vars_float s ! fi = Positions l" by blast
  have "0 < length (f # rest)" by simp
  from Cons.prems(7) [rule_format, OF this]
  have blk: "if cmpnts ! fi \<noteq> [] \<and> depends_on s var fi
              then delegate s vars_int vars_float var fi f (cmpnts ! fi) = Inr b
                 \<and> length b = length (cmpnts ! fi)
              else b = replicate (length (cmpnts ! fi)) NaN"
    unfolding blocks by (simp only: add_0_right nth_Cons_0)
  have rest: "\<forall>j < length rest.
           if cmpnts ! (Suc fi + j) \<noteq> [] \<and> depends_on s var (Suc fi + j)
           then delegate s vars_int vars_float var (Suc fi + j) (rest ! j) (cmpnts ! (Suc fi + j))
                  = Inr (bs ! j)
              \<and> length (bs ! j) = length (cmpnts ! (Suc fi + j))
           else bs ! j = replicate (length (cmpnts ! (Suc fi + j))) NaN"
  proof (intro allI impI)
    fix j assume "j < length rest"
    then have "Suc j < length (f # rest)" by simp
    from Cons.prems(7) [rule_format, OF this]
    show "if cmpnts ! (Suc fi + j) \<noteq> [] \<and> depends_on s var (Suc fi + j)
           then delegate s vars_int vars_float var (Suc fi + j) (rest ! j) (cmpnts ! (Suc fi + j))
                  = Inr (bs ! j)
              \<and> length (bs ! j) = length (cmpnts ! (Suc fi + j))
           else bs ! j = replicate (length (cmpnts ! (Suc fi + j))) NaN"
      unfolding blocks by (simp only: add_Suc_right add_Suc nth_Cons_Suc)
  qed
  from Cons.prems(9) have m: "length b \<le> m" and m': "length (concat bs) \<le> m - length b"
    by (simp_all add: blocks)
  from Cons.prems(8) have pre': "length (pre @ b) = c0 + length b" by simp
  have "ana_deriv_loop s vars_int vars_float var cmpnts fi (f # rest) i0 c0 (pre @ replicate m NaN)
       = ana_deriv_loop s vars_int vars_float var cmpnts (Suc fi) rest (i0 + sizes s ! fi)
           (c0 + length b) ((pre @ b) @ replicate (m - length b) NaN)"
    by (rule ana_deriv_loop_step [OF fi Cons.prems(3,4,5) pos blk Cons.prems(8) m])
  also have "\<dots> = Inr ((pre @ b) @ concat bs
       @ replicate ((m - length b) - length (concat bs)) NaN)"
    by (rule Cons.IH [OF lbs fi' Cons.prems(3,4,5,6) rest pre' m'])
  also have "\<dots> = Inr (pre @ concat blocks @ replicate (m - length (concat blocks)) NaN)"
    by (simp add: blocks)
  finally show ?case .
qed

lemma length_filter_ranges:
  "a \<le> b \<Longrightarrow> b \<le> c \<Longrightarrow>
   length (filter (\<lambda>x. int a \<le> x \<and> x < int b) cs) + length (filter (\<lambda>x. int b \<le> x \<and> x < int c) cs)
     = length (filter (\<lambda>x. int a \<le> x \<and> x < int c) cs)"
  by (induction cs) auto

lemma requested_total_ranges:
  "sum_list (map (\<lambda>(a, b). length (case components of
                      None \<Rightarrow> map int [a..<b]
                    | Some cs \<Rightarrow> filter (\<lambda>c. int a \<le> c \<and> c < int b) cs))
               (ledger_ranges ns i0))
     = (case components of
          None \<Rightarrow> sum_list ns
        | Some cs \<Rightarrow> length (filter (\<lambda>c. int i0 \<le> c \<and> c < int (i0 + sum_list ns)) cs))"
proof (induction ns arbitrary: i0)
  case Nil
  show ?case by (cases components) simp_all
next
  case (Cons n ns)
  show ?case
  proof (cases components)
    case None
    with Cons.IH [of "i0 + n"] show ?thesis by simp
  next
    case (Some cs)
    with Cons.IH [of "i0 + n"] length_filter_ranges [of i0 "i0 + n" "i0 + n + sum_list ns" cs]
    show ?thesis by (simp add: add.assoc)
  qed
qed

lemma requested_total:
  "sum_list (map (\<lambda>fi. length (requested sz components fi)) [0..<length sz])
     = (case components of
          None \<Rightarrow> sum_list sz
        | Some cs \<Rightarrow> length (filter (\<lambda>c. 0 \<le> c \<and> c < int (sum_list sz)) cs))"
proof -
  have "map (\<lambda>fi. length (requested sz components fi)) [0..<length sz]
      = map length (cmpnts_loop sz components 0 [])"
    by (simp add: cmpnts_loop_requested comp_def)
  also have "\<dots> = map (\<lambda>(a, b). length (case components of
                      None \<Rightarrow> map int [a..<b]
                    | Some cs \<Rightarrow> filter (\<lambda>c. int a \<le> c \<and> c < int b) cs))
               (ledger_ranges sz 0)"
    by (simp add: cmpnts_loop_eq comp_def case_prod_beta)
  finally show ?thesis
    using requested_total_ranges [of components sz 0] by (cases components) simp_all
qed

lemma mapping_ok_Positions: "mapping_ok vnames fvnames m \<Longrightarrow> \<exists>l. m = Positions l"
  by (auto simp: mapping_ok_def split: sum.splits)




lemma ana_deriv_layout:
  assumes inv: "initialized_inv s"
    and lb: "length blocks = n_functions s"
    and blk: "\<forall>fi < n_functions s.
           if requested (sizes s) components fi \<noteq> [] \<and> depends_on s var fi
           then delegate s vars_int vars_float var fi (functions_fl s ! fi)
                  (requested (sizes s) components fi) = Inr (blocks ! fi)
              \<and> length (blocks ! fi) = length (requested (sizes s) components fi)
           else blocks ! fi = replicate (length (requested (sizes s) components fi)) NaN"
  shows "ana_deriv s vars_int vars_float var components
       = Inr (concat blocks
              @ replicate ((case components of Some cs \<Rightarrow> length cs | None \<Rightarrow> n_components s)
                           - length (concat blocks)) NaN)"
    and "length (concat blocks)
       = (case components of
            None \<Rightarrow> n_components s
          | Some cs \<Rightarrow> length (filter (\<lambda>c. 0 \<le> c \<and> c < int (n_components s)) cs))"
proof -
  let ?sz = "sizes s"
  let ?cm = "cmpnts_loop ?sz components 0 []"
  let ?n = "case components of Some cs \<Rightarrow> length cs | None \<Rightarrow> n_components s"
  have nf: "n_functions s = length (functions_fl s)" by (simp add: n_functions_def)
  from inv have ls: "length ?sz = n_functions s"
    by (simp add: initialized_inv_def nf)
  from inv have lfi: "length (func_vars_int s) = length ?sz"
    and lff: "length (func_vars_float s) = length ?sz"
    using ls by (auto simp: initialized_inv_def nf dest: list_all2_lengthD)
  have pos: "\<forall>k < length ?sz. \<exists>l. func_vars_float s ! k = Positions l"
  proof (intro allI impI)
    fix k assume "k < length ?sz"
    then have "k < n_functions s" by (simp add: ls)
    from initialized_inv_mappings(6) [OF inv this]
    show "\<exists>l. func_vars_float s ! k = Positions l" by (rule mapping_ok_Positions)
  qed
  have lc: "length ?cm = length ?sz" by (simp add: cmpnts_loop_requested)
  have cm: "?cm ! fi = requested ?sz components fi" if "fi < n_functions s" for fi
    using that ls by (simp add: cmpnts_loop_requested)
  have bl: "length (blocks ! fi) = length (requested ?sz components fi)" if "fi < n_functions s" for fi
    using blk [rule_format, OF that] by (auto split: if_splits)
  have "map length blocks = map (\<lambda>fi. length (requested ?sz components fi)) [0..<length ?sz]"
    by (rule nth_equalityI) (simp_all add: lb ls bl)
  then have "length (concat blocks)
      = sum_list (map (\<lambda>fi. length (requested ?sz components fi)) [0..<length ?sz])"
    by (simp add: length_concat)
  then show total: "length (concat blocks)
       = (case components of
            None \<Rightarrow> n_components s
          | Some cs \<Rightarrow> length (filter (\<lambda>c. 0 \<le> c \<and> c < int (n_components s)) cs))"
    by (cases components) (simp_all add: requested_total n_components_def)
  have room: "length (concat blocks) \<le> ?n"
    unfolding total by (cases components) simp_all
  have blk': "\<forall>j < length (functions_fl s).
           if ?cm ! (0 + j) \<noteq> [] \<and> depends_on s var (0 + j)
           then delegate s vars_int vars_float var (0 + j) (functions_fl s ! j) (?cm ! (0 + j))
                  = Inr (blocks ! j)
              \<and> length (blocks ! j) = length (?cm ! (0 + j))
           else blocks ! j = replicate (length (?cm ! (0 + j))) NaN"
  proof (intro allI impI)
    fix j assume "j < length (functions_fl s)"
    then have j: "j < n_functions s" by (simp add: nf)
    from blk [rule_format, OF j]
    show "if ?cm ! (0 + j) \<noteq> [] \<and> depends_on s var (0 + j)
           then delegate s vars_int vars_float var (0 + j) (functions_fl s ! j) (?cm ! (0 + j))
                  = Inr (blocks ! j)
              \<and> length (blocks ! j) = length (?cm ! (0 + j))
           else blocks ! j = replicate (length (?cm ! (0 + j))) NaN"
      unfolding add_0 cm [OF j] .
  qed
  have "ana_deriv_loop s vars_int vars_float var ?cm 0 (functions_fl s) 0 0 ([] @ replicate ?n NaN)
      = Inr ([] @ concat blocks @ replicate (?n - length (concat blocks)) NaN)"
  proof (rule ana_deriv_loop_eq [OF _ _ lc lfi lff pos blk' _ room])
    show "length blocks = length (functions_fl s)" by (simp add: lb nf)
    show "0 + length (functions_fl s) = length ?sz" by (simp add: ls nf)
    show "length [] = 0" by simp
  qed
  then show "ana_deriv s vars_int vars_float var components
       = Inr (concat blocks @ replicate (?n - length (concat blocks)) NaN)"
    by (simp add: ana_deriv_def Let_def)
qed

lemma concat_replicates:
  "concat (map (\<lambda>fi. replicate (g fi) x) is) = replicate (sum_list (map g is)) x"
  by (induction "is") (simp_all add: replicate_add)

lemma replicate_fill: "a \<le> n \<Longrightarrow> replicate a x @ replicate (n - a) x = replicate n x"
  by (simp add: replicate_add [symmetric])

lemma ex_ready_fields:
  "n_functions ex_ready = 3" "n_components ex_ready = 5" "sizes ex_ready = [1, 2, 2]"
  "functions_fl ex_ready = [ex_C True, ex_A True, ex_B True]"
  "func_vars_int ex_ready = [Positions [], Positions [0], Positions []]"
  "func_vars_float ex_ready = [Positions [0, 1], Positions [0, 2], Positions [1]]"
  by (simp_all add: ex_ready_def n_functions_def n_components_def)

lemma ex_sub_ana_deriv:
  "sub_ana_deriv (ex_C ini) = ex_deriv" "sub_ana_deriv (ex_A ini) = ex_deriv"
  "sub_ana_deriv (ex_B ini) = ex_deriv"
  by (simp_all add: ex_C_def ex_A_def ex_B_def)


lemma ex_offsets:
  "offset [1, 2, 2] 0 = 0" "offset [1, 2, 2] 1 = 1" "offset [1, 2, 2] 2 = 3"
  "offset [1, 2, 2] (Suc 0) = 1" "offset [1, 2, 2] (Suc 1) = 3" "offset [1, 2, 2] (Suc 2) = 5"
  by (simp_all add: offset_def numeral_2_eq_2)


text \<open>
  Two parts of the claim on sentinels hold for every state that satisfies the invariant
  of initialization: a variable on which no sub-function depends gives sentinels only,
  and the empty selection gives the empty vector. After initialization every registry
  position is in the float mapping of some sub-function, so that the first case arises
  only for a \<open>var\<close> that is not a registry position.
\<close>

lemma ana_deriv_no_dependence:
  assumes inv: "initialized_inv s"
    and nd: "\<forall>fi < n_functions s. \<not> depends_on s var fi"
  shows "ana_deriv s vars_int vars_float var components
       = Inr (replicate (case components of Some cs \<Rightarrow> length cs | None \<Rightarrow> n_components s) NaN)"
proof -
  let ?n = "case components of Some cs \<Rightarrow> length cs | None \<Rightarrow> n_components s"
  let ?nan = "map (\<lambda>fi. replicate (length (requested (sizes s) components fi)) NaN)
      [0..<n_functions s]"
  have l: "length ?nan = n_functions s" by simp
  have blk: "\<forall>fi < n_functions s.
         if requested (sizes s) components fi \<noteq> [] \<and> depends_on s var fi
         then delegate s vars_int vars_float var fi (functions_fl s ! fi)
                (requested (sizes s) components fi) = Inr (?nan ! fi)
            \<and> length (?nan ! fi) = length (requested (sizes s) components fi)
         else ?nan ! fi = replicate (length (requested (sizes s) components fi)) NaN"
    using nd by simp
  note lay = ana_deriv_layout [OF inv l blk]
  have "length (concat ?nan) \<le> ?n"
    unfolding lay(2) by (cases components) simp_all
  moreover have "concat ?nan = replicate (length (concat ?nan)) NaN"
    by (simp add: concat_replicates length_concat comp_def)
  ultimately have "concat ?nan @ replicate (?n - length (concat ?nan)) NaN = replicate ?n NaN"
    by (metis replicate_fill)
  with lay(1) show ?thesis by simp
qed

lemma ana_deriv_empty_selection:
  assumes inv: "initialized_inv s"
  shows "ana_deriv s vars_int vars_float var (Some []) = Inr []"
proof -
  let ?nan = "map (\<lambda>fi. replicate (length (requested (sizes s) (Some []) fi)) NaN)
      [0..<n_functions s]"
  have l: "length ?nan = n_functions s" by simp
  have blk: "\<forall>fi < n_functions s.
         if requested (sizes s) (Some []) fi \<noteq> [] \<and> depends_on s var fi
         then delegate s vars_int vars_float var fi (functions_fl s ! fi)
                (requested (sizes s) (Some []) fi) = Inr (?nan ! fi)
            \<and> length (?nan ! fi) = length (requested (sizes s) (Some []) fi)
         else ?nan ! fi = replicate (length (requested (sizes s) (Some []) fi)) NaN"
    by (simp add: requested_def)
  from ana_deriv_layout(1) [OF inv l blk] show ?thesis
    by (simp add: requested_def)
qed

lemma registry_position_used:
  assumes inv: "initialized_inv s" and p: "p < length (vnamesf s)"
  shows "\<exists>fi < n_functions s. depends_on s (int p) fi"
proof -
  let ?fs = "functions_fl s"
  from inv have reg: "vnamesf s = dedup_first_seen (concat (map sub_var_names_float ?fs))"
    by (simp add: initialized_inv_def dict_fromkeys_dedup)
  from p have "vnamesf s ! p \<in> set (vnamesf s)" by simp
  then have "vnamesf s ! p \<in> set (concat (map sub_var_names_float ?fs))"
    by (simp add: reg)
  then obtain f where f: "f \<in> set ?fs" and v: "vnamesf s ! p \<in> set (sub_var_names_float f)"
    by auto
  from f obtain fi where fi: "fi < length ?fs" and ff: "?fs ! fi = f"
    by (auto simp: in_set_conv_nth)
  from fi have fi': "fi < n_functions s" by (simp add: n_functions_def)
  note m = initialized_inv_mappings [OF inv fi']
  from m(6) obtain l where l: "map_err (\<lambda>v. list_index (vnamesf s) v) (sub_var_names_float f) = Inr l"
    and pos: "func_vars_float s ! fi = Positions l"
    by (auto simp: mapping_ok_def ff split: sum.splits)
  from l have all2: "list_all2 (\<lambda>v i. list_index (vnamesf s) v = Inr i) (sub_var_names_float f) l"
    by (simp add: map_err_Inr_iff)
  from v obtain j where j: "j < length (sub_var_names_float f)"
    and vj: "sub_var_names_float f ! j = vnamesf s ! p"
    by (auto simp: in_set_conv_nth)
  from list_index_Inr [OF list_all2_nthD [OF all2 j]] vj
  have q: "l ! j < length (vnamesf s)" "vnamesf s ! (l ! j) = vnamesf s ! p" by simp_all
  with m(8) p have "l ! j = p" by (simp add: nth_eq_iff_index_eq)
  moreover from all2 j have "j < length l" by (simp add: list_all2_lengthD)
  ultimately have "p \<in> set l" by (auto simp: in_set_conv_nth)
  then have "depends_on s (int p) fi" by (simp add: depends_on_def pos)
  with fi' show ?thesis by blast
qed

text \<open>
  C7, the entries of the only dependent sub-function: the claim has them equal that
  sub-function's own derivative result. In the composer of three sub-functions only the
  second one depends on \<open>z\<close>, the variable at registry position 2. Its own derivative
  result with respect to \<open>z\<close> (its local position 1), on its local variable vectors and
  for its two components 0 and 1, is \<open>[0, 1]\<close>. \<open>ana_deriv\<close> without a selection leaves
  the entries of the two other sub-functions at the sentinel, as the claim says, but
  stores \<open>[1, 2]\<close> in the entries of the second: it has asked that sub-function for the
  components 1 and 2, the global offsets.
\<close>

theorem ana_deriv_only_dependent_block:
  "vnamesf ex_ready ! 2 = ''z''
   \<and> \<not> depends_on ex_ready 2 0 \<and> depends_on ex_ready 2 1 \<and> \<not> depends_on ex_ready 2 2
   \<and> functions_fl ex_ready ! 1 = ex_A True \<and> sub_n_components (ex_A True) = 2
   \<and> is_local_vector (vnamesi ex_ready) [7 :: int] (sub_var_names_int (ex_A True)) [7]
   \<and> is_local_vector (vnamesf ex_ready) [Num 10, Num 20, Num 30]
        (sub_var_names_float (ex_A True)) [Num 10, Num 30]
   \<and> list_index (sub_var_names_float (ex_A True)) ''z'' = Inr 1
   \<and> sub_ana_deriv (ex_A True) [7] [Num 10, Num 30] 1 [0, 1] = Inr [Num 0, Num 1]
   \<and> ana_deriv ex_ready [7] [Num 10, Num 20, Num 30] 2 None
       = Inr [NaN, Num 1, Num 2, NaN, NaN]"
proof -
  have 1: "vnamesf ex_ready ! 2 = ''z''" by (simp add: ex_ready_def)
  have 2: "\<not> depends_on ex_ready 2 0" "depends_on ex_ready 2 1" "\<not> depends_on ex_ready 2 2"
    by (simp_all add: ex_ready_fields depends_on_def)
  have 3: "functions_fl ex_ready ! 1 = ex_A True" "sub_n_components (ex_A True) = 2"
    by (simp_all add: ex_ready_fields ex_A_def)
  have 4: "is_local_vector (vnamesi ex_ready) [7::int] (sub_var_names_int (ex_A True)) [7]"
    "is_local_vector (vnamesf ex_ready) [Num 10, Num 20, Num 30]
        (sub_var_names_float (ex_A True)) [Num 10, Num 30]"
    by (simp_all add: is_local_vector_def ex_ready_def ex_A_def)
  have 5: "list_index (sub_var_names_float (ex_A True)) ''z'' = Inr 1"
    by (simp add: ex_A_def)
  have 6: "sub_ana_deriv (ex_A True) [7] [Num 10, Num 30] 1 [0, 1] = Inr [Num 0, Num 1]"
    by (simp add: ex_sub_ana_deriv ex_deriv_def)
  have 7: "ana_deriv ex_ready [7] [Num 10, Num 20, Num 30] 2 None
       = Inr [NaN, Num 1, Num 2, NaN, NaN]"
    by (simp add: ana_deriv_def ex_ready_def ex_C_def ex_A_def ex_B_def n_components_def
        list_get_def set_slice_def Let_def ex_deriv_def upt_conv_Cons numeral_eq_Suc)
  from 1 2 3 4 5 6 7 show ?thesis by blast
qed







text \<open>
  C1, the translation of the component subset: the claim has the composer hand each
  sub-function its components as local indices (the global offset minus the ledger
  start). \<open>ana_deriv\<close> hands over \<open>cmpnts[fi]\<close>, the global offsets themselves: with the
  boundaries \<open>[0,1)\<close>, \<open>[1,3)\<close>, \<open>[3,5)\<close> and the selection \<open>[2]\<close>, the second
  sub-function (ledger start 1) is called with the component list \<open>[2]\<close>, not \<open>[1]\<close>, and
  the result is its answer for index 2.
\<close>

theorem ana_deriv_passes_global_offsets:
  "ana_deriv ex_ready [7] [Num 10, Num 20, Num 30] 2 (Some [2]) = Inr [Num 2]
   \<and> offset (sizes ex_ready) 1 = 1
   \<and> delegate ex_ready [7] [Num 10, Num 20, Num 30] 2 1 (ex_A True) [2] = Inr [Num 2]
   \<and> delegate ex_ready [7] [Num 10, Num 20, Num 30] 2 1 (ex_A True) [1] = Inr [Num 1]"
  by (simp add: ana_deriv_def delegate_def ex_ready_def ex_C_def ex_A_def ex_B_def n_components_def
      list_get_def set_slice_def Let_def ex_deriv_def offset_def)

end
